theory Spec2Isabelle
  imports Complex_Main "HOL-Library.Word" "HOL-Library.Sublist"
begin

unbundle bit_operations_syntax

section \<open>Values of the host language\<close>

text \<open>
  The package is TypeScript on Node. Its values are modelled as follows.
  \<^item> A seed, a URL and every string the package builds is the list of the bytes of its
    UTF-8 encoding (\<open>string\<close>, characters are bytes); such a string is well formed. This is
    what the HMAC key and the Base32 encoder see.
  \<^item> An issuer or an account name, which \<open>encodeURIComponent\<close> reads, is the list of its
    UTF-16 code units (\<open>utf16\<close>), so that a surrogate without its partner can be written.
  \<^item> A number that holds an integer is an \<open>int\<close>; the results of \<open>parseInt\<close>
    are \<open>number\<close>s, an integer or \<open>NaN\<close>. A sum or difference that the program
    forms is rounded as IEEE 754 double precision rounds it (\<open>double_of_int\<close>).
  \<^item> An optional field or argument is an \<open>option\<close>; \<open>None\<close> is \<open>undefined\<close>.
  \<^item> A thrown exception is the left summand of the result; a call that never returns has
    no result (\<open>None\<close>).
\<close>

type_synonym byte = "8 word"

type_synonym utf16 = "16 word list"

text \<open>
  \<open>RangeError\<close> is what the buffer write, the conversion to a big integer and a string
  longer than the engine allows throw; \<open>URIError\<close> is what \<open>encodeURIComponent\<close> throws;
  \<open>InvalidArgument\<close> is the \<open>Error\<close> of \<open>generateQRCode\<close>, "You must provide either a
  seed or a URL."
\<close>

datatype error = RangeError | URIError | InvalidArgument

datatype number = Number int | NaN

text \<open>The operator \<open>===\<close> on numbers: \<open>NaN\<close> is not equal to anything, itself included.\<close>

fun strict_eq :: "number \<Rightarrow> number \<Rightarrow> bool" where
  "strict_eq (Number a) (Number b) = (a = b)"
| "strict_eq _ _ = False"

text \<open>Truthiness of an optional string: \<open>undefined\<close> and the empty string are falsy.\<close>

fun truthy :: "'a list option \<Rightarrow> bool" where
  "truthy None = False"
| "truthy (Some s) = (s \<noteq> [])"

subsection \<open>Integers held in double precision\<close>

text \<open>
  \<open>double_of_int x\<close> is the double nearest to the integer \<open>x\<close>: the integer itself when it
  has at most 53 significant bits, and otherwise the nearest multiple of the power of two
  that leaves 53 bits, a tie going to the even multiple. What rounds to \<open>2 ^ 1024\<close> or
  more is an infinity, for which \<open>2 ^ 1024\<close> stands: it compares like an infinity, adding 1
  leaves it as it is, and the conversion to a big integer throws on both.
\<close>

fun bit_length :: "nat \<Rightarrow> nat" where
  "bit_length n = (if n = 0 then 0 else Suc (bit_length (n div 2)))"

declare bit_length.simps [simp del]

definition round_half_even :: "nat \<Rightarrow> nat \<Rightarrow> nat" where
  "round_half_even e x =
     (let q = x div 2 ^ e; r = x mod 2 ^ e
      in (if 2 * r < 2 ^ e \<or> (2 * r = 2 ^ e \<and> even q) then q else q + 1) * 2 ^ e)"

definition double_of_nat :: "nat \<Rightarrow> nat" where
  "double_of_nat x = min (round_half_even (bit_length x - 53) x) (2 ^ 1024)"

definition double_of_int :: "int \<Rightarrow> int" where
  "double_of_int x =
     (if x < 0 then - int (double_of_nat (nat (- x))) else int (double_of_nat (nat x)))"

subsection \<open>Strings of digits\<close>

definition digit_char :: "nat \<Rightarrow> char" where
  "digit_char d = char_of (48 + d)"

fun digits :: "nat \<Rightarrow> string" where
  "digits n = (if n < 10 then [digit_char n] else digits (n div 10) @ [digit_char (n mod 10)])"

declare digits.simps [simp del]

text \<open>\<open>Number.prototype.toString()\<close> on an integer.\<close>

definition number_toString :: "int \<Rightarrow> string" where
  "number_toString n = (if n < 0 then CHR ''-'' # digits (nat (- n)) else digits (nat n))"

text \<open>\<open>String.prototype.slice(start)\<close> with one argument.\<close>

definition slice_from :: "int \<Rightarrow> string \<Rightarrow> string" where
  "slice_from start s =
     (let size = int (length s);
          from = (if start < 0 then max (size + start) 0 else min start size)
      in drop (nat from) s)"

text \<open>
  \<open>String.prototype.padStart(maxLength, fill)\<close> with a one-character filler. A string of
  the engine has at most \<open>2 ^ 29 - 24\<close> characters; padding to more throws a \<open>RangeError\<close>
  ("Invalid string length").
\<close>

definition max_string_length :: int where
  "max_string_length = 536870888"

definition padStart :: "int \<Rightarrow> char \<Rightarrow> string \<Rightarrow> error + string" where
  "padStart maxLength fill s =
     (if maxLength \<le> int (length s) then Inr s
      else if max_string_length < maxLength then Inl RangeError
      else Inr (replicate (nat (maxLength - int (length s))) fill @ s))"

text \<open>
  \<open>parseInt(string)\<close> without a radix: leading white space is skipped, a sign is read, the
  prefix \<open>0x\<close> selects radix 16, the longest prefix of digits is converted, and no digit at
  all gives \<open>NaN\<close>.
\<close>

definition digit_val :: "char \<Rightarrow> nat option" where
  "digit_val c =
     (let n = (of_char c :: nat)
      in if 48 \<le> n \<and> n \<le> 57 then Some (n - 48)
         else if 97 \<le> n \<and> n \<le> 122 then Some (n - 87)
         else if 65 \<le> n \<and> n \<le> 90 then Some (n - 55)
         else None)"

definition is_digit :: "nat \<Rightarrow> char \<Rightarrow> bool" where
  "is_digit radix c = (case digit_val c of None \<Rightarrow> False | Some v \<Rightarrow> v < radix)"

definition is_whitespace :: "char \<Rightarrow> bool" where
  "is_whitespace c = ((of_char c :: nat) \<in> {9, 10, 11, 12, 13, 32})"

fun digits_value :: "nat \<Rightarrow> nat \<Rightarrow> string \<Rightarrow> nat" where
  "digits_value radix acc [] = acc"
| "digits_value radix acc (c # cs) =
     digits_value radix (acc * radix + (case digit_val c of None \<Rightarrow> 0 | Some v \<Rightarrow> v)) cs"

definition parseInt :: "string \<Rightarrow> number" where
  "parseInt s =
     (let s1 = dropWhile is_whitespace s;
          sign = (if take 1 s1 = ''-'' then - 1 else (1 :: int));
          s2 = (if take 1 s1 = ''-'' \<or> take 1 s1 = ''+'' then drop 1 s1 else s1);
          hex = (take 2 s2 = ''0x'' \<or> take 2 s2 = ''0X'');
          radix = (if hex then 16 else 10);
          s3 = (if hex then drop 2 s2 else s2);
          z = takeWhile (is_digit radix) s3
      in if z = [] then NaN else Number (sign * int (digits_value radix 0 z)))"

subsection \<open>Buffers\<close>

text \<open>
  Reading a buffer at an index: out of range gives \<open>undefined\<close> (here \<open>None\<close>), and the
  bitwise operators turn \<open>undefined\<close> into 0 and a byte into a 32-bit integer.
\<close>

definition buf_at :: "byte list \<Rightarrow> nat \<Rightarrow> byte option" where
  "buf_at buf i = (if i < length buf then Some (buf ! i) else None)"

definition to_int32 :: "byte option \<Rightarrow> 32 word" where
  "to_int32 v = (case v of None \<Rightarrow> 0 | Some b \<Rightarrow> ucast b)"

definition utf8 :: "string \<Rightarrow> byte list" where
  "utf8 s = map (\<lambda>c. word_of_nat (of_char c)) s"

text \<open>
  \<open>Buffer.alloc(8)\<close> followed by \<open>writeBigInt64BE(BigInt(counter))\<close>: the value must be a
  signed 64-bit integer, or the write throws a \<open>RangeError\<close>; the bytes are its two's
  complement, most significant byte first.
\<close>

definition writeBigInt64BE :: "int \<Rightarrow> error + byte list" where
  "writeBigInt64BE v =
     (if - (2 ^ 63) \<le> v \<and> v < 2 ^ 63
      then Inr (map (\<lambda>i. ucast (drop_bit (8 * (7 - i)) (word_of_int v :: 64 word))) [0..<8])
      else Inl RangeError)"

text \<open>\<open>digest('hex')\<close> and \<open>Buffer.from(token, 'hex')\<close>.\<close>

definition hex_char :: "nat \<Rightarrow> char" where
  "hex_char n = (if n < 10 then char_of (48 + n) else char_of (87 + n))"

definition to_hex :: "byte list \<Rightarrow> string" where
  "to_hex bs = concat (map (\<lambda>b. [hex_char (unat b div 16), hex_char (unat b mod 16)]) bs)"

fun from_hex :: "string \<Rightarrow> byte list" where
  "from_hex (a # b # rest) =
     (if is_digit 16 a \<and> is_digit 16 b
      then word_of_nat (16 * the (digit_val a) + the (digit_val b)) # from_hex rest
      else [])"
| "from_hex _ = []"

section \<open>The keyed hash of the platform: HMAC-SHA1\<close>

text \<open>
  \<open>crypto.createHmac('sha1', key).update(msg).digest()\<close>, after FIPS 180-4 and RFC 2104.
  The 32-bit words of SHA-1 are natural numbers below \<open>2 ^ 32\<close>.
\<close>

definition add32 :: "nat \<Rightarrow> nat \<Rightarrow> nat" where
  "add32 x y = (x + y) mod 4294967296"

definition rotl32 :: "nat \<Rightarrow> nat \<Rightarrow> nat" where
  "rotl32 n w = (w * 2 ^ n) mod 4294967296 + w div 2 ^ (32 - n)"

definition not32 :: "nat \<Rightarrow> nat" where
  "not32 w = 4294967295 - w"

definition word32_of_bytes :: "nat list \<Rightarrow> nat" where
  "word32_of_bytes bs = foldl (\<lambda>acc b. acc * 256 + b) 0 bs"

definition bytes_of_word32 :: "nat \<Rightarrow> nat list" where
  "bytes_of_word32 w =
     [w div 16777216 mod 256, w div 65536 mod 256, w div 256 mod 256, w mod 256]"

definition bytes_of_word64 :: "nat \<Rightarrow> nat list" where
  "bytes_of_word64 w = bytes_of_word32 (w div 4294967296) @ bytes_of_word32 w"

definition sha1_pad :: "nat list \<Rightarrow> nat list" where
  "sha1_pad msg =
     msg @ [128] @ replicate ((119 - length msg mod 64) mod 64) 0
         @ bytes_of_word64 (8 * length msg)"

fun chunks :: "nat \<Rightarrow> 'a list \<Rightarrow> 'a list list" where
  "chunks n [] = []"
| "chunks n (x # xs) =
     (if n = 0 then [] else take n (x # xs) # chunks n (drop n (x # xs)))"

fun sha1_schedule :: "nat \<Rightarrow> nat list \<Rightarrow> nat list" where
  "sha1_schedule n ws =
     (if n = 0 then ws
      else sha1_schedule (n - 1)
             (rotl32 1 (ws ! 2 XOR ws ! 7 XOR ws ! 13 XOR ws ! 15) # ws))"

declare sha1_schedule.simps [simp del]

definition sha1_f :: "nat \<Rightarrow> nat \<Rightarrow> nat \<Rightarrow> nat \<Rightarrow> nat" where
  "sha1_f t b c d =
     (if t < 20 then (b AND c) OR (not32 b AND d)
      else if t < 40 then b XOR c XOR d
      else if t < 60 then (b AND c) OR (b AND d) OR (c AND d)
      else b XOR c XOR d)"

definition sha1_k :: "nat \<Rightarrow> nat" where
  "sha1_k t =
     (if t < 20 then 0x5A827999 else if t < 40 then 0x6ED9EBA1
      else if t < 60 then 0x8F1BBCDC else 0xCA62C1D6)"

type_synonym sha1_state = "nat \<times> nat \<times> nat \<times> nat \<times> nat"

fun sha1_rounds :: "nat \<Rightarrow> nat list \<Rightarrow> sha1_state \<Rightarrow> sha1_state" where
  "sha1_rounds t [] s = s"
| "sha1_rounds t (w # ws) (a, b, c, d, e) =
     sha1_rounds (t + 1) ws
       (add32 (add32 (add32 (add32 (rotl32 5 a) (sha1_f t b c d)) e) (sha1_k t)) w,
        a, rotl32 30 b, c, d)"

definition sha1_block :: "sha1_state \<Rightarrow> nat list \<Rightarrow> sha1_state" where
  "sha1_block s blk =
     (case s of (h0, h1, h2, h3, h4) \<Rightarrow>
        (case sha1_rounds 0
                (rev (sha1_schedule 64 (rev (map word32_of_bytes (chunks 4 blk))))) s of
           (a, b, c, d, e) \<Rightarrow>
             (add32 h0 a, add32 h1 b, add32 h2 c, add32 h3 d, add32 h4 e)))"

definition sha1_init :: sha1_state where
  "sha1_init = (0x67452301, 0xEFCDAB89, 0x98BADCFE, 0x10325476, 0xC3D2E1F0)"

definition sha1_output :: "sha1_state \<Rightarrow> nat list" where
  "sha1_output s =
     (case s of (h0, h1, h2, h3, h4) \<Rightarrow> concat (map bytes_of_word32 [h0, h1, h2, h3, h4]))"

definition sha1 :: "nat list \<Rightarrow> nat list" where
  "sha1 msg = sha1_output (foldl sha1_block sha1_init (chunks 64 (sha1_pad msg)))"

definition hmac_key_block :: "nat list \<Rightarrow> nat list" where
  "hmac_key_block key =
     (let k0 = (if 64 < length key then sha1 key else key)
      in k0 @ replicate (64 - length k0) 0)"

definition hmac_sha1 :: "byte list \<Rightarrow> byte list \<Rightarrow> byte list" where
  "hmac_sha1 key msg =
     (let k = hmac_key_block (map unat key)
      in map word_of_nat
           (sha1 (map (\<lambda>b. b XOR 0x5c) k @ sha1 (map (\<lambda>b. b XOR 0x36) k @ map unat msg))))"

section \<open>The package\<close>


record GenerateCodeOptions =
  gc_length :: "int option"

record VerifyTOTPOptions =
  vt_length :: "int option"
  vt_step :: "int option"

record VerifyHOTPOptions =
  vh_length :: "int option"
  allowedBeforeDrift :: "int option"
  allowedAfterDrift :: "int option"

record GenerateURLOptions =
  issuer :: "utf16 option"
  account :: "utf16 option"

record GenerateQRCodeOptions =
  qr_seed :: "string option"
  qr_issuer :: "utf16 option"
  qr_account :: "utf16 option"
  qr_url :: "string option"

subsection \<open>generateCode\<close>

text \<open>The offset \<open>tokenBuf[19] & 0xf\<close> and the 32-bit integer \<open>code\<close> built from it.\<close>

definition hotp_offset :: "byte list \<Rightarrow> nat" where
  "hotp_offset tokenBuf = unat (to_int32 (buf_at tokenBuf 19) AND 0xf)"

definition hotp_code :: "byte list \<Rightarrow> 32 word" where
  "hotp_code tokenBuf =
     (let offset = hotp_offset tokenBuf
      in push_bit 24 (to_int32 (buf_at tokenBuf offset) AND 0x7f)
         OR push_bit 16 (to_int32 (buf_at tokenBuf (offset + 1)) AND 0xff)
         OR push_bit 8 (to_int32 (buf_at tokenBuf (offset + 2)) AND 0xff)
         OR (to_int32 (buf_at tokenBuf (offset + 3)) AND 0xff))"

definition generateCode :: "string \<Rightarrow> int \<Rightarrow> GenerateCodeOptions option \<Rightarrow> error + number" where
  "generateCode seed counter options =
     (let len = (case Option.bind options gc_length of None \<Rightarrow> 6 | Some l \<Rightarrow> l)
      in case writeBigInt64BE counter of
           Inl e \<Rightarrow> Inl e
         | Inr counterBuf \<Rightarrow>
             (let token = to_hex (hmac_sha1 (utf8 seed) counterBuf);
                  tokenBuf = from_hex token;
                  code = sint (hotp_code tokenBuf)
              in case padStart len (CHR ''0'') (slice_from (- len) (number_toString code)) of
                   Inl e \<Rightarrow> Inl e
                 | Inr padded \<Rightarrow> Inr (parseInt padded)))"

subsection \<open>verifyHOTP and verifyTOTP\<close>

text \<open>
  The loop \<open>for (let i = counter - before; i <= counter + after; i++)\<close> of
  \<open>verifyHOTP\<close>. The bounds and the increment are operations on doubles: from \<open>2 ^ 53\<close> on,
  \<open>i++\<close> can leave \<open>i\<close> as it is, and then the loop runs for ever. An exception of
  \<open>generateCode\<close> leaves the loop. The result is \<open>None\<close> when the loop does not return.
\<close>

partial_function (option) hotp_loop ::
  "string \<Rightarrow> number \<Rightarrow> int option \<Rightarrow> int \<Rightarrow> int \<Rightarrow> (error + bool) option" where
  "hotp_loop seed code len i hi =
     (if i \<le> hi
      then (case generateCode seed i (Some \<lparr>gc_length = len\<rparr>) of
              Inl e \<Rightarrow> Some (Inl e)
            | Inr c \<Rightarrow> if strict_eq c code then Some (Inr True)
                      else hotp_loop seed code len (double_of_int (i + 1)) hi)
      else Some (Inr False))"

definition verifyHOTP ::
  "string \<Rightarrow> number \<Rightarrow> int \<Rightarrow> VerifyHOTPOptions option \<Rightarrow> (error + bool) option" where
  "verifyHOTP seed code counter options =
     (let before = (case Option.bind options allowedBeforeDrift of None \<Rightarrow> 0 | Some b \<Rightarrow> b);
          after = (case Option.bind options allowedAfterDrift of None \<Rightarrow> 0 | Some a \<Rightarrow> a)
      in hotp_loop seed code (Option.bind options vh_length)
           (double_of_int (counter - before)) (double_of_int (counter + after)))"

text \<open>
  \<open>verifyTOTP\<close> reads the clock with \<open>Date.now()\<close>, in milliseconds; the reading is the
  first argument of the model, and the two divisions are exact (rational) in the model.
  With a step of 0 the quotient is infinite (the conversion of the counter to a big integer
  throws) or, at time 0, \<open>NaN\<close> (the loop of \<open>verifyHOTP\<close> is not entered).
\<close>

definition verifyTOTP ::
  "int \<Rightarrow> string \<Rightarrow> number \<Rightarrow> VerifyTOTPOptions option \<Rightarrow> (error + bool) option" where
  "verifyTOTP now seed code options =
     (let step = (case Option.bind options vt_step of None \<Rightarrow> 30 | Some s \<Rightarrow> s)
      in if step = 0 then (if now = 0 then Some (Inr False) else Some (Inl RangeError))
         else verifyHOTP seed code \<lfloor>(of_int now :: rat) / 1000 / of_int step\<rfloor>
                (Some \<lparr>vh_length = Option.bind options vt_length,
                        allowedBeforeDrift = None, allowedAfterDrift = None\<rparr>))"

subsection \<open>generateSeed\<close>




subsection \<open>generateURL and generateQRCode\<close>

text \<open>\<open>base32.encode\<close> of the package hi-base32: RFC 4648, with padding.\<close>

definition b32_char :: "nat \<Rightarrow> char" where
  "b32_char v = (if v < 26 then char_of (65 + v) else char_of (24 + v))"

fun base32_encode :: "nat list \<Rightarrow> string" where
  "base32_encode [] = []"
| "base32_encode (b # bs) =
     (let grp = take 5 (b # bs);
          r = length grp;
          v = foldl (\<lambda>acc x. acc * 256 + x) 0 (grp @ replicate (5 - r) 0);
          cs = map (\<lambda>i. b32_char (v div 32 ^ (7 - i) mod 32)) [0..<8];
          n = (8 * r + 4) div 5
      in take n cs @ replicate (8 - n) (CHR ''='') @ base32_encode (drop 4 bs))"

text \<open>
  \<open>encodeURIComponent\<close>, after ECMAScript: the string is read code unit by code unit. An
  unreserved character is copied. Any other code point is written as the octets of its
  UTF-8 encoding, each as \<open>%XX\<close>; a surrogate pair is one code point, and a surrogate
  without its partner throws a \<open>URIError\<close>.
\<close>

definition uri_unreserved :: "nat \<Rightarrow> bool" where
  "uri_unreserved n =
     ((48 \<le> n \<and> n \<le> 57) \<or> (65 \<le> n \<and> n \<le> 90) \<or> (97 \<le> n \<and> n \<le> 122)
      \<or> n \<in> {45, 95, 46, 33, 126, 42, 39, 40, 41})"

definition hex_upper :: "nat \<Rightarrow> char" where
  "hex_upper n = (if n < 10 then char_of (48 + n) else char_of (55 + n))"

definition utf8_octets :: "nat \<Rightarrow> nat list" where
  "utf8_octets cp =
     (if cp < 0x80 then [cp]
      else if cp < 0x800 then [0xC0 + cp div 64, 0x80 + cp mod 64]
      else if cp < 0x10000
        then [0xE0 + cp div 4096, 0x80 + cp div 64 mod 64, 0x80 + cp mod 64]
      else [0xF0 + cp div 262144, 0x80 + cp div 4096 mod 64, 0x80 + cp div 64 mod 64,
            0x80 + cp mod 64])"

definition percent :: "nat list \<Rightarrow> string" where
  "percent octets =
     concat (map (\<lambda>b. [CHR ''%'', hex_upper (b div 16), hex_upper (b mod 16)]) octets)"

definition is_lead :: "16 word \<Rightarrow> bool" where
  "is_lead c = (0xD800 \<le> unat c \<and> unat c < 0xDC00)"

definition is_trail :: "16 word \<Rightarrow> bool" where
  "is_trail c = (0xDC00 \<le> unat c \<and> unat c < 0xE000)"

definition pair_code_point :: "16 word \<Rightarrow> 16 word \<Rightarrow> nat" where
  "pair_code_point c d = 0x10000 + (unat c - 0xD800) * 0x400 + (unat d - 0xDC00)"

fun encodeURIComponent :: "utf16 \<Rightarrow> error + string" where
  "encodeURIComponent [] = Inr []"
| "encodeURIComponent (c # cs) =
     (if uri_unreserved (unat c)
      then (case encodeURIComponent cs of
              Inl e \<Rightarrow> Inl e
            | Inr r \<Rightarrow> Inr (char_of (unat c) # r))
      else if \<not> is_lead c \<and> \<not> is_trail c
      then (case encodeURIComponent cs of
              Inl e \<Rightarrow> Inl e
            | Inr r \<Rightarrow> Inr (percent (utf8_octets (unat c)) @ r))
      else if is_trail c then Inl URIError
      else (case cs of
              [] \<Rightarrow> Inl URIError
            | d # ds \<Rightarrow>
                if is_trail d
                then (case encodeURIComponent ds of
                        Inl e \<Rightarrow> Inl e
                      | Inr r \<Rightarrow> Inr (percent (utf8_octets (pair_code_point c d)) @ r))
                else Inl URIError))"

text \<open>A string of ASCII characters as code units.\<close>

definition ascii :: "string \<Rightarrow> utf16" where
  "ascii s = map (\<lambda>c. word_of_nat (of_char c)) s"

definition generateURL :: "string \<Rightarrow> GenerateURLOptions option \<Rightarrow> error + string" where
  "generateURL seed options =
     (let encodedSeed = filter (\<lambda>c. c \<noteq> CHR ''='') (base32_encode (map of_char seed));
          url = ''otpauth://totp/''
      in case (case Option.bind options issuer of
                 Some i \<Rightarrow>
                   if i \<noteq> []
                   then (case encodeURIComponent i of
                           Inl e \<Rightarrow> Inl e
                         | Inr r \<Rightarrow> Inr (url @ ''?issuer='' @ r))
                   else Inr url
               | None \<Rightarrow> Inr url) of
           Inl e \<Rightarrow> Inl e
         | Inr url \<Rightarrow>
             (case (case Option.bind options account of
                      Some a \<Rightarrow>
                        if a \<noteq> []
                        then (case encodeURIComponent a of
                                Inl e \<Rightarrow> Inl e
                              | Inr r \<Rightarrow> Inr (url @ r))
                        else Inr url
                    | None \<Rightarrow> Inr url) of
                Inl e \<Rightarrow> Inl e
              | Inr url \<Rightarrow>
                  (case encodeURIComponent (ascii encodedSeed) of
                     Inl e \<Rightarrow> Inl e
                   | Inr r \<Rightarrow> Inr (url @ ''&secret='' @ r))))"

text \<open>
  \<open>generateQRCode\<close>; the renderer \<open>qr.toDataURL\<close> is a parameter, and the result of the
  model is the value the returned promise settles with.
\<close>

definition render_seed :: "(string \<Rightarrow> 'img) \<Rightarrow> GenerateQRCodeOptions \<Rightarrow> error + 'img" where
  "render_seed toDataURL options =
     (case generateURL (case qr_seed options of Some s \<Rightarrow> s | None \<Rightarrow> [])
             (Some \<lparr>issuer = qr_issuer options, account = qr_account options\<rparr>) of
        Inl e \<Rightarrow> Inl e
      | Inr url \<Rightarrow> Inr (toDataURL url))"

definition generateQRCode :: "(string \<Rightarrow> 'img) \<Rightarrow> GenerateQRCodeOptions \<Rightarrow> error + 'img" where
  "generateQRCode toDataURL options =
     (if \<not> truthy (qr_seed options) \<and> \<not> truthy (qr_url options) then Inl InvalidArgument
      else (case qr_url options of
              Some u \<Rightarrow> if u \<noteq> [] then Inr (toDataURL u) else render_seed toDataURL options
            | None \<Rightarrow> render_seed toDataURL options))"

section \<open>The derivation as the specification words it\<close>

text \<open>
  The counter as eight bytes, most significant first; the dynamic truncation of RFC 4226 on
  unbounded integers; the code as the truncated value modulo a power of ten, and as the value
  of the last characters of its decimal text.
\<close>

definition big_endian8 :: "int \<Rightarrow> byte list" where
  "big_endian8 c = map (\<lambda>i. word_of_int (c div 256 ^ (7 - i))) [0..<8]"

definition rfc4226_truncated :: "byte list \<Rightarrow> int" where
  "rfc4226_truncated digest =
     (let offset = unat (digest ! 19 AND 0x0F)
      in push_bit 24 (uint (digest ! offset AND 0x7F))
         OR push_bit 16 (uint (digest ! (offset + 1)))
         OR push_bit 8 (uint (digest ! (offset + 2)))
         OR uint (digest ! (offset + 3)))"

definition rfc4226_hotp :: "string \<Rightarrow> int \<Rightarrow> nat \<Rightarrow> int" where
  "rfc4226_hotp seed counter L =
     rfc4226_truncated (hmac_sha1 (utf8 seed) (big_endian8 counter)) mod 10 ^ L"

definition last_chars :: "nat \<Rightarrow> string \<Rightarrow> string" where
  "last_chars L s = drop (length s - L) s"

definition rfc4226_hotp_text :: "string \<Rightarrow> int \<Rightarrow> nat \<Rightarrow> int" where
  "rfc4226_hotp_text seed counter L =
     int (digits_value 10 0
            (last_chars L (digits (nat (rfc4226_truncated
                                          (hmac_sha1 (utf8 seed) (big_endian8 counter)))))))"

section \<open>Notions used to state the properties\<close>

text \<open>Some counter of a window yields a code that is \<open>===\<close> the given one.\<close>

definition window_match :: "string \<Rightarrow> number \<Rightarrow> int option \<Rightarrow> int \<Rightarrow> int \<Rightarrow> bool" where
  "window_match seed code len lo hi =
     list_ex (\<lambda>i. case generateCode seed i (Some \<lparr>gc_length = len\<rparr>) of
                     Inl e \<Rightarrow> False
                   | Inr v \<Rightarrow> strict_eq v code)
       [lo..hi]"

text \<open>
  A length within the limit of the engine's strings (the default length 6 is), and a string
  in which every surrogate has its partner.
\<close>

definition length_ok :: "int option \<Rightarrow> bool" where
  "length_ok len = (case len of None \<Rightarrow> True | Some l \<Rightarrow> l \<le> max_string_length)"

fun well_formed :: "utf16 \<Rightarrow> bool" where
  "well_formed [] = True"
| "well_formed [c] = (\<not> is_lead c \<and> \<not> is_trail c)"
| "well_formed (c # d # ds) =
     (if is_lead c then is_trail d \<and> well_formed ds
      else \<not> is_trail c \<and> well_formed (d # ds))"

definition well_formed_opt :: "utf16 option \<Rightarrow> bool" where
  "well_formed_opt s = (case s of None \<Rightarrow> True | Some u \<Rightarrow> well_formed u)"

text \<open>The percent-encoding of a well-formed string.\<close>

definition percent_encoded :: "utf16 \<Rightarrow> string" where
  "percent_encoded s = (case encodeURIComponent s of Inl e \<Rightarrow> [] | Inr r \<Rightarrow> r)"



section \<open>Facts about the host functions\<close>

subsection \<open>Hexadecimal text and the digest\<close>

lemma digit_val_hex_char: "n < 16 \<Longrightarrow> digit_val (hex_char n) = Some n"
  by (auto simp: digit_val_def hex_char_def Let_def)

lemma is_digit_hex_char: "n < 16 \<Longrightarrow> is_digit 16 (hex_char n)"
  by (simp add: is_digit_def digit_val_hex_char)

lemma byte_nibbles: "word_of_nat (16 * (unat b div 16) + unat b mod 16) = (b :: byte)"
  by simp

lemma from_hex_to_hex: "from_hex (to_hex bs) = bs"
proof (induction bs)
  case Nil
  show ?case by (simp add: to_hex_def)
next
  case (Cons b bs)
  have hi: "unat b div 16 < 16"
    using unsigned_less [of b, where ?'a = nat] by (simp add: less_mult_imp_div_less)
  have "to_hex (b # bs) = hex_char (unat b div 16) # hex_char (unat b mod 16) # to_hex bs"
    by (simp add: to_hex_def)
  then show ?case
    using Cons hi by (simp add: is_digit_hex_char digit_val_hex_char)
qed

lemma length_sha1: "length (sha1 m) = 20"
  by (cases "foldl sha1_block sha1_init (chunks 64 (sha1_pad m))")
     (simp add: sha1_def sha1_output_def bytes_of_word32_def)

lemma length_hmac_sha1: "length (hmac_sha1 k m) = 20"
  by (simp add: hmac_sha1_def Let_def length_sha1)

lemma hotp_offset_le: "hotp_offset buf \<le> 15"
proof -
  have "to_int32 (buf_at buf 19) AND 0xf \<le> 0xf"
    by (rule word_and_le1)
  then show ?thesis
    by (simp add: hotp_offset_def word_le_nat_alt)
qed

subsection \<open>The 32-bit truncation\<close>

lemma ucast_and_7f: "(ucast (a::byte) AND 0x7f :: 32 word) = word_of_int (uint (a AND 0x7f))"
proof -
  have "uint (a AND 0x7f) = uint a AND 0x7f"
    by (simp add: uint_and)
  then have "(word_of_int (uint (a AND 0x7f)) :: 32 word) = word_of_int (uint a) AND word_of_int 0x7f"
    by (simp only: of_int_and_eq)
  then show ?thesis
    unfolding ucast_eq by simp
qed

lemma ucast_and_ff: "(ucast (b::byte) AND 0xff :: 32 word) = word_of_int (uint b)"
proof -
  have "(255 :: 32 word) = mask 8"
    by (simp add: mask_eq_exp_minus_1)
  then have "(ucast b AND 0xff :: 32 word) = take_bit 8 (ucast b)"
    by (simp add: take_bit_eq_mask)
  also have "\<dots> = ucast b"
    by (rule bit_word_eqI) (auto simp: bit_simps dest: bit_imp_le_length)
  finally show ?thesis unfolding ucast_eq .
qed

lemma uint_and_7f: "uint ((a::byte) AND 0x7f) < 128"
proof -
  have "a AND 0x7f \<le> 0x7f" by (rule word_and_le1)
  then show ?thesis by (simp add: word_le_def)
qed

lemma uint_byte_less: "uint (b::byte) < 256"
  using uint_bounded [of b] by simp

lemma trunc_bounds:
  fixes a b c d :: byte
  shows "0 \<le> (push_bit 24 (uint (a AND 0x7f)) OR push_bit 16 (uint b) OR push_bit 8 (uint c) OR uint d)"
   and "(push_bit 24 (uint (a AND 0x7f)) OR push_bit 16 (uint b) OR push_bit 8 (uint c) OR uint d) < 2 ^ 31"
proof -
  show "0 \<le> (push_bit 24 (uint (a AND 0x7f)) OR push_bit 16 (uint b) OR push_bit 8 (uint c) OR uint d)"
    by simp
  have 1: "push_bit 24 (uint (a AND 0x7f)) < 2 ^ 31"
    using uint_and_7f [of a] by (simp add: push_bit_eq_mult)
  have 2: "push_bit 16 (uint b) < 2 ^ 31"
    using uint_byte_less [of b] by (simp add: push_bit_eq_mult)
  have 3: "push_bit 8 (uint c) < 2 ^ 31"
    using uint_byte_less [of c] by (simp add: push_bit_eq_mult)
  have 4: "uint d < 2 ^ 31"
    using uint_byte_less [of d] by simp
  show "(push_bit 24 (uint (a AND 0x7f)) OR push_bit 16 (uint b) OR push_bit 8 (uint c) OR uint d) < 2 ^ 31"
    using 1 2 3 4 by (intro OR_upper) simp_all
qed

lemma trunc_word_int:
  fixes a b c d :: byte
  shows "sint (push_bit 24 (ucast a AND 0x7f) OR push_bit 16 (ucast b AND 0xff)
               OR push_bit 8 (ucast c AND 0xff) OR (ucast d AND 0xff) :: 32 word)
         = (push_bit 24 (uint (a AND 0x7f)) OR push_bit 16 (uint b) OR push_bit 8 (uint c) OR uint d)"
proof -
  let ?P = "push_bit 24 (uint (a AND 0x7f)) OR push_bit 16 (uint b) OR push_bit 8 (uint c) OR uint d"
  have "(push_bit 24 (ucast a AND 0x7f) OR push_bit 16 (ucast b AND 0xff)
               OR push_bit 8 (ucast c AND 0xff) OR (ucast d AND 0xff) :: 32 word) = word_of_int ?P"
    unfolding ucast_and_7f ucast_and_ff
    by (simp only: of_int_or_eq push_bit_of_int)
  moreover have "sint (word_of_int ?P :: 32 word) = ?P"
  proof -
    have "- (2 ^ 31) \<le> (0 :: int)"
      by simp
    then have "- (2 ^ 31) \<le> ?P"
      using trunc_bounds(1) [of a b c d] by (rule order_trans)
    then have "signed_take_bit 31 ?P = ?P"
      using trunc_bounds(2) [of a b c d] by (rule signed_take_bit_int_eq_self)
    then show ?thesis
      by (simp only: sint_sbintrunc') simp
  qed
  ultimately show ?thesis by simp
qed

subsection \<open>Decimal text\<close>

lemma is_digit_10_iff: "is_digit 10 c \<longleftrightarrow> 48 \<le> (of_char c :: nat) \<and> (of_char c :: nat) \<le> 57"
  by (auto simp: is_digit_def digit_val_def Let_def)

lemma digit_val_digit_char: "d < 10 \<Longrightarrow> digit_val (digit_char d) = Some d"
  by (simp add: digit_val_def digit_char_def)

lemma is_digit_digit_char: "d < 10 \<Longrightarrow> is_digit 10 (digit_char d)"
  by (simp add: is_digit_def digit_val_digit_char)

lemma digits_nonempty: "digits n \<noteq> []"
  by (subst digits.simps) simp

lemma digits_all_digit: "c \<in> set (digits n) \<Longrightarrow> is_digit 10 c"
proof (induction n rule: digits.induct)
  case (1 n)
  show ?case
  proof (cases "n < 10")
    case True
    with "1.prems" show ?thesis
      by (subst (asm) digits.simps) (simp add: is_digit_digit_char)
  next
    case False
    with "1.prems" have "c \<in> set (digits (n div 10)) \<or> c = digit_char (n mod 10)"
      by (subst (asm) digits.simps) auto
    with False "1.IH" show ?thesis
      by (auto simp: is_digit_digit_char)
  qed
qed

lemma digits_value_append:
  "digits_value r acc (xs @ ys) = digits_value r (digits_value r acc xs) ys"
  by (induction xs arbitrary: acc) simp_all

lemma digits_value_snoc_digit:
  "d < 10 \<Longrightarrow> digits_value 10 acc (xs @ [digit_char d]) = digits_value 10 acc xs * 10 + d"
  by (simp add: digits_value_append digit_val_digit_char)

lemma digits_value_drop:
  "k \<le> length (digits n) \<Longrightarrow>
   digits_value 10 0 (drop k (digits n)) = n mod 10 ^ (length (digits n) - k)"
proof (induction n arbitrary: k rule: digits.induct)
  case (1 n)
  show ?case
  proof (cases "n < 10")
    case True
    then have ds: "digits n = [digit_char n]"
      by (subst digits.simps) simp
    with "1.prems" have "k = 0 \<or> k = 1" by auto
    then show ?thesis
      using True by (auto simp: ds digit_val_digit_char)
  next
    case False
    then have ds: "digits n = digits (n div 10) @ [digit_char (n mod 10)]"
      by (subst digits.simps) simp
    let ?m = "length (digits (n div 10))"
    show ?thesis
    proof (cases "k \<le> ?m")
      case True
      then have "digits_value 10 0 (drop k (digits n))
                 = digits_value 10 0 (drop k (digits (n div 10))) * 10 + n mod 10"
        by (simp add: ds digits_value_snoc_digit)
      also have "\<dots> = (n div 10) mod 10 ^ (?m - k) * 10 + n mod 10"
        using "1.IH" [OF False True] by simp
      also have "\<dots> = n mod 10 ^ (Suc (?m - k))"
        by (simp add: mod_mult2_eq)
      finally show ?thesis
        using True by (simp add: ds Suc_diff_le)
    next
      case False
      with "1.prems" have "k = Suc ?m" by (simp add: ds)
      then show ?thesis by (simp add: ds)
    qed
  qed
qed

lemma digits_bound: "n < 10 ^ length (digits n)"
proof (induction n rule: digits.induct)
  case (1 n)
  show ?case
  proof (cases "n < 10")
    case True
    then show ?thesis by (subst digits.simps) simp
  next
    case False
    then have ds: "digits n = digits (n div 10) @ [digit_char (n mod 10)]"
      by (subst digits.simps) simp
    have "n div 10 < 10 ^ length (digits (n div 10))"
      using "1.IH" [OF False] .
    then have "n < 10 * 10 ^ length (digits (n div 10))"
      by (simp add: div_less_iff_less_mult mult.commute)
    then show ?thesis by (simp add: ds)
  qed
qed

lemma digits_value_zeros:
  "digits_value 10 0 (replicate m (CHR ''0'') @ s) = digits_value 10 0 s"
  by (induction m) (simp_all add: digit_val_def)

lemma parseInt_digit_string:
  assumes "s \<noteq> []" and "\<And>c. c \<in> set s \<Longrightarrow> is_digit 10 c"
  shows "parseInt s = Number (int (digits_value 10 0 s))"
proof -
  obtain a rest where s: "s = a # rest"
    using assms(1) by (cases s) auto
  have a: "48 \<le> (of_char a :: nat)" "(of_char a :: nat) \<le> 57"
    using assms(2) [of a] by (simp_all add: s is_digit_10_iff)
  have E1: "dropWhile is_whitespace s = s"
    using a by (simp add: s is_whitespace_def)
  have E2: "(take 1 s = ''-'') = False" "(take 1 s = ''+'') = False"
    using a by (auto simp: s)
  have E3: "(take 2 s = ''0x'') = False" "(take 2 s = ''0X'') = False"
  proof -
    have "take 2 s \<noteq> ''0x''"
    proof
      assume "take 2 s = ''0x''"
      then obtain r' where "rest = CHR ''x'' # r'"
        by (cases rest) (auto simp: s)
      then have "is_digit 10 (CHR ''x'')"
        using assms(2) [of "CHR ''x''"] by (simp add: s)
      then show False by (simp add: is_digit_10_iff)
    qed
    then show "(take 2 s = ''0x'') = False" by simp
    have "take 2 s \<noteq> ''0X''"
    proof
      assume "take 2 s = ''0X''"
      then obtain r' where "rest = CHR ''X'' # r'"
        by (cases rest) (auto simp: s)
      then have "is_digit 10 (CHR ''X'')"
        using assms(2) [of "CHR ''X''"] by (simp add: s)
      then show False by (simp add: is_digit_10_iff)
    qed
    then show "(take 2 s = ''0X'') = False" by simp
  qed
  have E4: "takeWhile (is_digit 10) s = s"
    using assms(2) by (simp add: takeWhile_eq_all_conv)
  have E5: "(s = []) = False"
    using assms(1) by simp
  show ?thesis
    unfolding parseInt_def Let_def E1
    by (simp only: E2 E3 E4 E5 simp_thms if_False if_True mult_1)
qed

lemma decimal_suffix_value:
  assumes "1 \<le> L" and "L \<le> max_string_length"
  shows "(case padStart L (CHR ''0'') (slice_from (- L) (number_toString (int n))) of
            Inl e \<Rightarrow> Inl e
          | Inr padded \<Rightarrow> Inr (parseInt padded))
         = Inr (Number (int (n mod 10 ^ nat L)))"
proof -
  let ?ds = "digits n"
  let ?k = "length ?ds - nat L"
  have ts: "number_toString (int n) = ?ds"
    by (simp add: number_toString_def)
  have sl: "slice_from (- L) ?ds = drop ?k ?ds"
    using assms by (simp add: slice_from_def Let_def max_def nat_diff_distrib')
  have zero_digit: "is_digit 10 (CHR ''0'')"
    by (simp add: is_digit_10_iff)
  show ?thesis
  proof (cases "nat L \<le> length ?ds")
    case True
    then have len: "length (drop ?k ?ds) = nat L" by simp
    then have pad: "padStart L (CHR ''0'') (drop ?k ?ds) = Inr (drop ?k ?ds)"
      using assms by (simp add: padStart_def)
    have ne: "drop ?k ?ds \<noteq> []"
      using len assms by auto
    have "parseInt (drop ?k ?ds) = Number (int (digits_value 10 0 (drop ?k ?ds)))"
      using ne by (rule parseInt_digit_string) (auto dest: in_set_dropD digits_all_digit)
    moreover have "digits_value 10 0 (drop ?k ?ds) = n mod 10 ^ (length ?ds - ?k)"
      by (rule digits_value_drop) simp
    moreover have "length ?ds - ?k = nat L"
      using True by simp
    ultimately show ?thesis
      by (simp add: ts sl pad)
  next
    case False
    then have k0: "?k = 0" by simp
    have pad: "padStart L (CHR ''0'') ?ds
                 = Inr (replicate (nat L - length ?ds) (CHR ''0'') @ ?ds)"
      using False assms by (simp add: padStart_def nat_diff_distrib')
    have "parseInt (replicate (nat L - length ?ds) (CHR ''0'') @ ?ds)
          = Number (int (digits_value 10 0 (replicate (nat L - length ?ds) (CHR ''0'') @ ?ds)))"
      by (rule parseInt_digit_string) (auto simp: digits_nonempty zero_digit dest: digits_all_digit)
    moreover have "digits_value 10 0 ?ds = n"
      using digits_value_drop [of 0 n] digits_bound [of n] by simp
    moreover have "n < 10 ^ nat L"
    proof -
      have "(10::nat) ^ length ?ds \<le> 10 ^ nat L"
        using False by (intro power_increasing) simp_all
      with digits_bound [of n] show ?thesis by (rule less_le_trans)
    qed
    ultimately show ?thesis
      by (simp add: ts sl k0 pad digits_value_zeros)
  qed
qed

subsection \<open>The counter bytes and the truncated value\<close>

lemma byte_of_word64:
  assumes "k \<le> 7"
  shows "(ucast (drop_bit (8 * k) (word_of_int c :: 64 word)) :: byte) = word_of_int (c div 256 ^ k)"
proof -
  have "(256 :: int) ^ k = 2 ^ (8 * k)"
    by (simp add: power_mult)
  then have "c div 256 ^ k = drop_bit (8 * k) c"
    by (simp add: drop_bit_eq_div)
  then show ?thesis
    using assms by (intro bit_word_eqI) (auto simp: bit_simps)
qed

lemma writeBigInt64BE_big_endian8:
  "- (2 ^ 63) \<le> c \<Longrightarrow> c < 2 ^ 63 \<Longrightarrow> writeBigInt64BE c = Inr (big_endian8 c)"
  by (simp add: writeBigInt64BE_def big_endian8_def byte_of_word64)

lemma unat_ucast_and_0f: "unat (ucast (b :: byte) AND 0xf :: 32 word) = unat (b AND 0xf)"
proof -
  have "(15 :: 32 word) = ucast (15 :: byte)"
    by simp
  then have "(ucast b AND 0xf :: 32 word) = ucast (b AND 0xf)"
    by (simp only: unsigned_and_eq)
  moreover have "unat (b AND 0xf) < 2 ^ 32"
    using unsigned_less [of "b AND 0xf", where ?'a = nat] by simp
  ultimately show ?thesis
    by (simp add: unsigned_ucast_eq take_bit_nat_eq_self)
qed

lemma rfc4226_truncated_nonneg: "0 \<le> rfc4226_truncated d"
  by (simp add: rfc4226_truncated_def Let_def)

lemma hotp_code_sint:
  assumes "length d = 20"
  shows "sint (hotp_code d) = rfc4226_truncated d"
proof -
  have off: "hotp_offset d = unat (d ! 19 AND 0xf)"
    using assms by (simp add: hotp_offset_def buf_at_def to_int32_def unat_ucast_and_0f)
  have reads: "to_int32 (buf_at d (hotp_offset d + j)) = ucast (d ! (hotp_offset d + j))"
    if "j \<le> 3" for j
    using that assms hotp_offset_le [of d] by (simp add: buf_at_def to_int32_def)
  have "hotp_code d =
          push_bit 24 (ucast (d ! hotp_offset d) AND 0x7f)
          OR push_bit 16 (ucast (d ! (hotp_offset d + 1)) AND 0xff)
          OR push_bit 8 (ucast (d ! (hotp_offset d + 2)) AND 0xff)
          OR (ucast (d ! (hotp_offset d + 3)) AND 0xff)"
    using reads [of 0] reads [of 1] reads [of 2] reads [of 3]
    by (simp add: hotp_code_def Let_def)
  then show ?thesis
    by (simp only: trunc_word_int rfc4226_truncated_def Let_def off)
qed

lemma generateCode_rfc4226:
  assumes "- (2 ^ 63) \<le> c" and "c < 2 ^ 63" and "1 \<le> L" and "L \<le> max_string_length"
  shows "generateCode seed c (Some \<lparr>gc_length = Some L\<rparr>) = Inr (Number (rfc4226_hotp seed c (nat L)))"
proof -
  let ?d = "hmac_sha1 (utf8 seed) (big_endian8 c)"
  let ?t = "rfc4226_truncated ?d"
  have code: "sint (hotp_code ?d) = int (nat ?t)"
    using rfc4226_truncated_nonneg [of ?d] by (simp add: hotp_code_sint length_hmac_sha1)
  have "generateCode seed c (Some \<lparr>gc_length = Some L\<rparr>)
        = (case padStart L (CHR ''0'') (slice_from (- L) (number_toString (int (nat ?t)))) of
             Inl e \<Rightarrow> Inl e
           | Inr padded \<Rightarrow> Inr (parseInt padded))"
    using assms(1,2)
    by (simp add: generateCode_def writeBigInt64BE_big_endian8 from_hex_to_hex code Let_def)
  also have "\<dots> = Inr (Number (int (nat ?t mod 10 ^ nat L)))"
    using assms(3,4) by (simp only: decimal_suffix_value)
  also have "int (nat ?t mod 10 ^ nat L) = ?t mod 10 ^ nat L"
    using rfc4226_truncated_nonneg [of ?d] by (simp add: zmod_int)
  finally show ?thesis
    by (simp add: rfc4226_hotp_def)
qed

lemma rfc4226_text_eq_mod: "rfc4226_hotp_text seed c L = rfc4226_hotp seed c L"
proof -
  let ?t = "rfc4226_truncated (hmac_sha1 (utf8 seed) (big_endian8 c))"
  let ?ds = "digits (nat ?t)"
  have "digits_value 10 0 (drop (length ?ds - L) ?ds) = nat ?t mod 10 ^ (length ?ds - (length ?ds - L))"
    by (rule digits_value_drop) simp
  also have "\<dots> = nat ?t mod 10 ^ L"
  proof (cases "L \<le> length ?ds")
    case True
    then show ?thesis by simp
  next
    case False
    then have "(10::nat) ^ length ?ds \<le> 10 ^ L"
      by (intro power_increasing) simp_all
    with digits_bound [of "nat ?t"] have "nat ?t < 10 ^ L"
      by (rule less_le_trans)
    with digits_bound [of "nat ?t"] False show ?thesis by simp
  qed
  finally show ?thesis
    using rfc4226_truncated_nonneg [of "hmac_sha1 (utf8 seed) (big_endian8 c)"]
    by (simp add: rfc4226_hotp_text_def rfc4226_hotp_def last_chars_def zmod_int)
qed

subsection \<open>HMAC-SHA1 on a short key and a short message\<close>

lemma chunks_append:
  "length a = n \<Longrightarrow> 0 < n \<Longrightarrow> chunks n (a @ rest) = a # chunks n rest"
  by (cases a) auto

lemma chunks_single: "length a = n \<Longrightarrow> 0 < n \<Longrightarrow> chunks n a = [a]"
  using chunks_append [of a n "[]"] by simp

lemma sha1_pad_tail:
  assumes "length m \<le> 55"
  shows "(119 - length m) mod 64 = 55 - length m"
proof -
  have "119 - length m = 64 + (55 - length m)"
    using assms by simp
  then have "(119 - length m) mod 64 = (64 + (55 - length m)) mod 64"
    by (simp only:)
  also have "\<dots> = 55 - length m"
    by simp
  finally show ?thesis .
qed

lemma sha1_two_blocks:
  assumes "length blk = 64" and "length m \<le> 55"
  shows "sha1 (blk @ m) =
           sha1_output (sha1_block (sha1_block sha1_init blk)
             (m @ 128 # replicate (55 - length m) 0 @ bytes_of_word64 (8 * (64 + length m))))"
proof -
  define b2 where "b2 = m @ 128 # replicate (55 - length m) 0 @ bytes_of_word64 (8 * (64 + length m))"
  have len: "length b2 = 64"
    using assms(2) by (simp add: b2_def bytes_of_word64_def bytes_of_word32_def)
  have "chunks 64 (blk @ b2) = blk # chunks 64 b2"
    using assms(1) by (rule chunks_append) simp
  also have "chunks 64 b2 = [b2]"
    using len by (rule chunks_single) simp
  finally have ch: "chunks 64 (blk @ b2) = [blk, b2]" .
  have pad: "sha1_pad (blk @ m) = blk @ b2"
    using assms by (simp add: sha1_pad_def b2_def sha1_pad_tail)
  show ?thesis
    unfolding sha1_def pad ch by (simp only: foldl.simps b2_def)
qed

lemma hmac_sha1_two_blocks:
  assumes "length key \<le> 64" and "length msg \<le> 55"
  shows "hmac_sha1 key msg =
     (let k = map unat key @ replicate (64 - length key) 0;
          inner = sha1_output (sha1_block (sha1_block sha1_init (map (\<lambda>b. b XOR 0x36) k))
                    (map unat msg @ 128 # replicate (55 - length msg) 0
                       @ bytes_of_word64 (8 * (64 + length msg))))
      in map word_of_nat
           (sha1_output (sha1_block (sha1_block sha1_init (map (\<lambda>b. b XOR 0x5c) k))
              (inner @ 128 # replicate 35 0 @ bytes_of_word64 672))))"
proof -
  let ?k = "map unat key @ replicate (64 - length key) 0"
  have kb: "hmac_key_block (map unat key) = ?k"
    using assms(1) by (simp add: hmac_key_block_def)
  have lk: "length ?k = 64"
    using assms(1) by simp
  let ?inner = "sha1 (map (\<lambda>b. b XOR 0x36) ?k @ map unat msg)"
  have inner: "?inner = sha1_output (sha1_block (sha1_block sha1_init (map (\<lambda>b. b XOR 0x36) ?k))
                    (map unat msg @ 128 # replicate (55 - length msg) 0
                       @ bytes_of_word64 (8 * (64 + length msg))))"
    using sha1_two_blocks [of "map (\<lambda>b. b XOR 0x36) ?k" "map unat msg"] lk assms(2) by simp
  have li: "length ?inner = 20"
    by (rule length_sha1)
  have "sha1 (map (\<lambda>b. b XOR 0x5c) ?k @ ?inner) =
          sha1_output (sha1_block (sha1_block sha1_init (map (\<lambda>b. b XOR 0x5c) ?k))
             (?inner @ 128 # replicate 35 0 @ bytes_of_word64 672))"
    using sha1_two_blocks [of "map (\<lambda>b. b XOR 0x5c) ?k" ?inner] lk li by simp
  then show ?thesis
    by (simp only: hmac_sha1_def kb Let_def inner)
qed

subsection \<open>Lists of a given numeral length\<close>

lemma replicate_numeral: "replicate (numeral k) x = x # replicate (pred_numeral k) x"
  by (simp add: numeral_eq_Suc)

lemma upt_0_8: "[0..<8] = [0, 1, 2, 3, 4, 5, 6, 7]"
  by (simp add: upt_rec)

subsection \<open>Doubles that hold small integers\<close>

lemma bit_length_le: "x < 2 ^ k \<Longrightarrow> bit_length x \<le> k"
proof (induction k arbitrary: x)
  case 0
  then show ?case by (simp add: bit_length.simps)
next
  case (Suc k)
  show ?case
  proof (cases "x = 0")
    case True
    then show ?thesis by (simp add: bit_length.simps)
  next
    case False
    have "x div 2 < 2 ^ k" using Suc.prems by simp
    then have "bit_length (x div 2) \<le> k" by (rule Suc.IH)
    then show ?thesis using False by (subst bit_length.simps) simp
  qed
qed

lemma bit_length_2_53: "bit_length 9007199254740992 = 54"
  by (simp add: bit_length.simps)

lemma double_of_nat_exact: "x \<le> 9007199254740992 \<Longrightarrow> double_of_nat x = x"
proof (cases "x = 9007199254740992")
  case True
  then show ?thesis by (simp add: double_of_nat_def bit_length_2_53 round_half_even_def)
next
  case False
  assume "x \<le> 9007199254740992"
  with False have "x < 2 ^ 53" by simp
  then have "bit_length x \<le> 53" by (rule bit_length_le)
  moreover have "x \<le> 2 ^ 1024"
    using \<open>x < 2 ^ 53\<close> by (rule order_trans [OF less_imp_le]) simp
  ultimately show ?thesis by (simp add: double_of_nat_def round_half_even_def)
qed

text \<open>Every integer of magnitude at most \<open>2 ^ 53\<close> is a double.\<close>

lemma double_of_int_exact:
  "- 9007199254740992 \<le> x \<Longrightarrow> x \<le> 9007199254740992 \<Longrightarrow> double_of_int x = x"
  by (simp add: double_of_int_def double_of_nat_exact)

text \<open>Beyond, the successor of a double need not be one: \<open>2 ^ 53 + 1\<close> rounds to \<open>2 ^ 53\<close>.\<close>

lemma double_of_int_2_53_plus_1: "double_of_int (9007199254740992 + 1) = 9007199254740992"
  by (simp add: double_of_int_def double_of_nat_def bit_length.simps round_half_even_def)

lemma double_of_int_below_minus_2_53:
  "double_of_int (- 9007199254740994 + 1) = - 9007199254740992"
  by (simp add: double_of_int_def double_of_nat_def bit_length.simps round_half_even_def)

text \<open>An infinity stays one when 1 is added.\<close>

lemma double_of_int_overflow: "double_of_int (2 ^ 1024 + 1) = 2 ^ 1024"
  by (simp add: double_of_int_def double_of_nat_def bit_length.simps round_half_even_def)

section \<open>Generated codes and the verification loop\<close>

lemma generateCode_out_of_range:
  "\<not> (- (2 ^ 63) \<le> c \<and> c < 2 ^ 63) \<Longrightarrow> generateCode seed c options = Inl RangeError"
  by (auto simp add: generateCode_def writeBigInt64BE_def Let_def)

lemma generateCode_in_range:
  "- (2 ^ 63) \<le> c \<Longrightarrow> c < 2 ^ 63 \<Longrightarrow> length_ok len \<Longrightarrow>
   \<exists>v. generateCode seed c (Some \<lparr>gc_length = len\<rparr>) = Inr v"
  by (cases len)
     (simp_all add: generateCode_def writeBigInt64BE_def Let_def padStart_def length_ok_def
        max_string_length_def)

lemma hotp_loop_empty: "hi < lo \<Longrightarrow> hotp_loop seed code len lo hi = Some (Inr False)"
  by (subst hotp_loop.simps) simp

lemma hotp_loop_raise:
  "lo \<le> hi \<Longrightarrow> generateCode seed lo (Some \<lparr>gc_length = len\<rparr>) = Inl e \<Longrightarrow>
   hotp_loop seed code len lo hi = Some (Inl e)"
  by (subst hotp_loop.simps) simp

lemma hotp_loop_match:
  "lo \<le> hi \<Longrightarrow> generateCode seed lo (Some \<lparr>gc_length = len\<rparr>) = Inr v \<Longrightarrow>
   strict_eq v code \<Longrightarrow> hotp_loop seed code len lo hi = Some (Inr True)"
  by (subst hotp_loop.simps) simp

lemma hotp_loop_next:
  "lo \<le> hi \<Longrightarrow> generateCode seed lo (Some \<lparr>gc_length = len\<rparr>) = Inr v \<Longrightarrow>
   \<not> strict_eq v code \<Longrightarrow>
   hotp_loop seed code len lo hi = hotp_loop seed code len (double_of_int (lo + 1)) hi"
  by (subst hotp_loop.simps) simp

lemma window_match_iff:
  "window_match seed code len lo hi =
     (\<exists>i. lo \<le> i \<and> i \<le> hi \<and>
          (\<exists>v. generateCode seed i (Some \<lparr>gc_length = len\<rparr>) = Inr v \<and> strict_eq v code))"
proof -
  have "(case generateCode seed i (Some \<lparr>gc_length = len\<rparr>) of
           Inl e \<Rightarrow> False | Inr v \<Rightarrow> strict_eq v code)
        = (\<exists>v. generateCode seed i (Some \<lparr>gc_length = len\<rparr>) = Inr v \<and> strict_eq v code)"
    for i
    by (cases "generateCode seed i (Some \<lparr>gc_length = len\<rparr>)") auto
  then show ?thesis
    unfolding window_match_def list_ex_iff by auto
qed

lemma window_match_step:
  assumes "lo \<le> hi" and "generateCode seed lo (Some \<lparr>gc_length = len\<rparr>) = Inr v"
    and "\<not> strict_eq v code"
  shows "window_match seed code len lo hi = window_match seed code len (lo + 1) hi"
proof
  assume "window_match seed code len lo hi"
  then obtain i w where i: "lo \<le> i" "i \<le> hi"
    and w: "generateCode seed i (Some \<lparr>gc_length = len\<rparr>) = Inr w" "strict_eq w code"
    by (auto simp: window_match_iff)
  have "i \<noteq> lo"
    using assms(2,3) w by auto
  with i have "lo + 1 \<le> i" by simp
  with i w show "window_match seed code len (lo + 1) hi"
    by (auto simp: window_match_iff)
next
  assume "window_match seed code len (lo + 1) hi"
  then obtain i w where i: "lo + 1 \<le> i" "i \<le> hi"
    and w: "generateCode seed i (Some \<lparr>gc_length = len\<rparr>) = Inr w" "strict_eq w code"
    by (auto simp: window_match_iff)
  from i have "lo \<le> i" by simp
  with i w show "window_match seed code len lo hi"
    unfolding window_match_iff by blast
qed

text \<open>
  Within \<open>- 2 ^ 53\<close> and \<open>2 ^ 53\<close> the increments are exact, the loop returns, and it
  returns whether the window has a match.
\<close>

lemma hotp_loop_exact:
  assumes "hi < 9007199254740992" and "length_ok len"
  shows "- 9007199254740992 \<le> lo \<Longrightarrow>
         hotp_loop seed code len lo hi = Some (Inr (window_match seed code len lo hi))"
proof (induction "nat (hi + 1 - lo)" arbitrary: lo)
  case 0
  then have "hi < lo" by simp
  then show ?case
    by (simp add: hotp_loop_empty window_match_iff)
next
  case (Suc n)
  then have le: "lo \<le> hi" by simp
  have "- (2 ^ 63) \<le> lo"
    using Suc.prems by simp
  moreover have "lo < 2 ^ 63"
    using le assms(1) by simp
  ultimately obtain v where v: "generateCode seed lo (Some \<lparr>gc_length = len\<rparr>) = Inr v"
    using generateCode_in_range [of lo len seed] assms(2) by auto
  show ?case
  proof (cases "strict_eq v code")
    case True
    with le v show ?thesis
      by (auto simp: hotp_loop_match window_match_iff)
  next
    case False
    have next_exact: "double_of_int (lo + 1) = lo + 1"
      using Suc.prems le assms(1) by (intro double_of_int_exact) simp_all
    have "n = nat (hi + 1 - (lo + 1))"
      using Suc.hyps(2) by simp
    moreover have "- 9007199254740992 \<le> lo + 1"
      using Suc.prems by simp
    ultimately have "hotp_loop seed code len (lo + 1) hi
                     = Some (Inr (window_match seed code len (lo + 1) hi))"
      by (rule Suc.hyps(1))
    then show ?thesis
      using le v False by (simp add: hotp_loop_next next_exact window_match_step)
  qed
qed

lemma generateCode_text:
  assumes "- (2 ^ 63) \<le> c" and "c < 2 ^ 63"
  shows "generateCode seed c (Some \<lparr>gc_length = Some L\<rparr>)
         = (case padStart L (CHR ''0'') (slice_from (- L)
                    (digits (nat (rfc4226_truncated (hmac_sha1 (utf8 seed) (big_endian8 c)))))) of
              Inl e \<Rightarrow> Inl e
            | Inr padded \<Rightarrow> Inr (parseInt padded))"
proof -
  let ?d = "hmac_sha1 (utf8 seed) (big_endian8 c)"
  have "sint (hotp_code ?d) = rfc4226_truncated ?d"
    by (simp add: hotp_code_sint length_hmac_sha1)
  moreover have "number_toString (rfc4226_truncated ?d) = digits (nat (rfc4226_truncated ?d))"
    using rfc4226_truncated_nonneg [of ?d] by (simp add: number_toString_def)
  ultimately show ?thesis
    using assms
    by (simp add: generateCode_def writeBigInt64BE_big_endian8 from_hex_to_hex Let_def)
qed

lemma parseInt_digits: "parseInt (digits n) = Number (int n)"
proof -
  have "parseInt (digits n) = Number (int (digits_value 10 0 (digits n)))"
    using digits_nonempty by (rule parseInt_digit_string) (rule digits_all_digit)
  moreover have "digits_value 10 0 (digits n) = n"
    using digits_value_drop [of 0 n] digits_bound [of n] by simp
  ultimately show ?thesis by simp
qed

lemma generateCode_Number:
  assumes "- (2 ^ 63) \<le> c" and "c < 2 ^ 63" and "0 \<le> L" and "L \<le> max_string_length"
  shows "\<exists>v. generateCode seed c (Some \<lparr>gc_length = Some L\<rparr>) = Inr (Number v)"
proof (cases "L = 0")
  case True
  then show ?thesis
    using assms(1,2)
    by (simp add: generateCode_text slice_from_def padStart_def parseInt_digits)
next
  case False
  with assms(3) have "1 \<le> L" by simp
  with assms(1,2,4) show ?thesis
    by (simp add: generateCode_rfc4226)
qed

lemma digits_length_le: "n < 10 ^ k \<Longrightarrow> 0 < k \<Longrightarrow> length (digits n) \<le> k"
proof (induction n arbitrary: k rule: digits.induct)
  case (1 n)
  show ?case
  proof (cases "n < 10")
    case True
    then have "digits n = [digit_char n]"
      by (subst digits.simps) simp
    with "1.prems" show ?thesis by simp
  next
    case False
    then have ds: "digits n = digits (n div 10) @ [digit_char (n mod 10)]"
      by (subst digits.simps) simp
    obtain k' where k: "k = Suc k'"
      using "1.prems"(2) by (cases k) auto
    have "k' \<noteq> 0"
    proof
      assume "k' = 0"
      with "1.prems"(1) k have "n < 10" by simp
      with False show False ..
    qed
    moreover have "n div 10 < 10 ^ k'"
      using "1.prems"(1) k by (simp add: div_less_iff_less_mult mult.commute)
    ultimately have "length (digits (n div 10)) \<le> k'"
      using "1.IH" [OF False, of k'] by simp
    then show ?thesis
      by (simp add: ds k)
  qed
qed

lemma rfc4226_truncated_less: "rfc4226_truncated d < 2 ^ 31"
  unfolding rfc4226_truncated_def Let_def by (rule trunc_bounds(2))

lemma generateCode_NaN:
  assumes "- (2 ^ 63) \<le> c" and "c < 2 ^ 63" and "L \<le> - 10"
  shows "generateCode seed c (Some \<lparr>gc_length = Some L\<rparr>) = Inr NaN"
proof -
  let ?t = "rfc4226_truncated (hmac_sha1 (utf8 seed) (big_endian8 c))"
  have "?t < 10 ^ 10"
    using rfc4226_truncated_less [of "hmac_sha1 (utf8 seed) (big_endian8 c)"] by simp
  then have "nat ?t < 10 ^ 10"
    by simp
  then have "length (digits (nat ?t)) \<le> 10"
    by (rule digits_length_le) simp
  then have "slice_from (- L) (digits (nat ?t)) = []"
    using assms(3) by (simp add: slice_from_def Let_def)
  moreover have "padStart L (CHR ''0'') [] = Inr []"
    using assms(3) by (simp add: padStart_def)
  moreover have "parseInt [] = NaN"
    by (simp add: parseInt_def)
  ultimately show ?thesis
    using assms(1,2) by (simp add: generateCode_text)
qed

text \<open>A length above the limit of the engine's strings makes every call throw.\<close>

lemma generateCode_too_long:
  assumes "- (2 ^ 63) \<le> c" and "c < 2 ^ 63" and "max_string_length < L"
  shows "generateCode seed c (Some \<lparr>gc_length = Some L\<rparr>) = Inl RangeError"
proof -
  let ?t = "rfc4226_truncated (hmac_sha1 (utf8 seed) (big_endian8 c))"
  have "?t < 10 ^ 10"
    using rfc4226_truncated_less [of "hmac_sha1 (utf8 seed) (big_endian8 c)"] by simp
  then have "nat ?t < 10 ^ 10"
    by simp
  then have "length (digits (nat ?t)) \<le> 10"
    by (rule digits_length_le) simp
  then have "length (slice_from (- L) (digits (nat ?t))) \<le> 10"
    by (simp add: slice_from_def Let_def)
  then have "padStart L (CHR ''0'') (slice_from (- L) (digits (nat ?t))) = Inl RangeError"
    using assms(3) by (simp add: padStart_def max_string_length_def)
  then show ?thesis
    using assms(1,2) by (simp add: generateCode_text)
qed

lemma generateCode_not_length_ok:
  assumes "\<not> length_ok len"
  shows "generateCode seed c (Some \<lparr>gc_length = len\<rparr>) = Inl RangeError"
proof -
  obtain L where L: "len = Some L" "max_string_length < L"
    using assms by (cases len) (auto simp: length_ok_def)
  show ?thesis
  proof (cases "- (2 ^ 63) \<le> c \<and> c < 2 ^ 63")
    case True
    then show ?thesis
      using L by (simp add: generateCode_too_long)
  next
    case False
    then show ?thesis
      by (rule generateCode_out_of_range)
  qed
qed

lemma window_match_not_length_ok:
  "\<not> length_ok len \<Longrightarrow> \<not> window_match seed code len lo hi"
  by (simp add: window_match_iff generateCode_not_length_ok)

lemma verifyHOTP_loop:
  "verifyHOTP seed code counter
     (Some \<lparr>vh_length = len, allowedBeforeDrift = before, allowedAfterDrift = after\<rparr>)
   = hotp_loop seed code len
       (double_of_int (counter - (case before of None \<Rightarrow> 0 | Some b \<Rightarrow> b)))
       (double_of_int (counter + (case after of None \<Rightarrow> 0 | Some a \<Rightarrow> a)))"
  by (simp add: verifyHOTP_def Let_def)

lemma strict_eq_Number: "strict_eq (Number v) (Number w) = (v = w)"
  by simp

lemma strict_eq_NaN: "\<not> strict_eq v NaN"
  by (cases v) simp_all

text \<open>
  At \<open>2 ^ 53\<close> the increment leaves the loop variable as it is: a call that finds no match
  there never returns.
\<close>

lemma hotp_loop_stuck:
  assumes "length_ok len"
  shows "hotp_loop seed NaN len 9007199254740992 9007199254740992 = None"
proof (rule ccontr)
  let ?stuck = "\<lambda>(s :: string) (code :: number) (l :: int option) (i :: int) (hi :: int)
                   (r :: error + bool).
                  \<not> (code = NaN \<and> i = 9007199254740992 \<and> hi = 9007199254740992 \<and> length_ok l)"
  assume "hotp_loop seed NaN len 9007199254740992 9007199254740992 \<noteq> None"
  then obtain y where y: "hotp_loop seed NaN len 9007199254740992 9007199254740992 = Some y"
    by auto
  have "?stuck seed NaN len 9007199254740992 9007199254740992 y"
  proof (rule hotp_loop.raw_induct [where P = ?stuck, OF _ y])
    fix loop :: "string \<Rightarrow> number \<Rightarrow> int option \<Rightarrow> int \<Rightarrow> int \<Rightarrow> (error + bool) option"
      and s code l i hi r
    assume IH: "\<And>s code l i hi r. loop s code l i hi = Some r \<Longrightarrow> ?stuck s code l i hi r"
      and body: "(if i \<le> hi
                  then (case generateCode s i (Some \<lparr>gc_length = l\<rparr>) of
                          Inl e \<Rightarrow> Some (Inl e)
                        | Inr c \<Rightarrow> if strict_eq c code then Some (Inr True)
                                  else loop s code l (double_of_int (i + 1)) hi)
                  else Some (Inr False)) = Some r"
    show "?stuck s code l i hi r"
    proof
      assume a: "code = NaN \<and> i = 9007199254740992 \<and> hi = 9007199254740992 \<and> length_ok l"
      then obtain v where v: "generateCode s i (Some \<lparr>gc_length = l\<rparr>) = Inr v"
        using generateCode_in_range [of i l s] by auto
      have "loop s code l (double_of_int (i + 1)) hi = Some r"
        using body v a by (simp add: strict_eq_NaN)
      then have "loop s code l i hi = Some r"
        using a by (simp only: double_of_int_2_53_plus_1)
      then have "?stuck s code l i hi r"
        by (rule IH)
      with a show False
        by blast
    qed
  qed
  with assms show False
    by simp
qed

lemma verifyHOTP_never_returns: "verifyHOTP seed NaN 9007199254740992 None = None"
  by (simp add: verifyHOTP_def double_of_int_exact hotp_loop_stuck length_ok_def)

text \<open>The window of \<open>verifyHOTP\<close> when its counters are exact doubles.\<close>

lemma verifyHOTP_window:
  assumes "0 \<le> before" and "0 \<le> after"
    and "- 9007199254740992 \<le> counter - before" and "counter + after < 9007199254740992"
  shows "verifyHOTP seed code counter
           (Some \<lparr>vh_length = len, allowedBeforeDrift = Some before,
                   allowedAfterDrift = Some after\<rparr>)
         = Some (if length_ok len
                 then Inr (window_match seed code len (counter - before) (counter + after))
                 else Inl RangeError)"
proof -
  have lo: "double_of_int (counter - before) = counter - before"
    using assms by (intro double_of_int_exact) simp_all
  have hi: "double_of_int (counter + after) = counter + after"
    using assms by (intro double_of_int_exact) simp_all
  show ?thesis
  proof (cases "length_ok len")
    case True
    then show ?thesis
      using assms(3,4) by (simp add: verifyHOTP_loop lo hi hotp_loop_exact)
  next
    case False
    have "counter - before \<le> counter + after"
      using assms(1,2) by simp
    then have "hotp_loop seed code len (counter - before) (counter + after) = Some (Inl RangeError)"
      using False by (intro hotp_loop_raise generateCode_not_length_ok)
    then show ?thesis
      using False by (simp add: verifyHOTP_loop lo hi)
  qed
qed

lemma double_of_int_2_62: "double_of_int 4611686018427387904 = 4611686018427387904"
  by (simp add: double_of_int_def double_of_nat_def bit_length.simps round_half_even_def)

lemma double_of_int_minus_2_64:
  "double_of_int (- 18446744073709551616) = - 18446744073709551616"
  by (simp add: double_of_int_def double_of_nat_def bit_length.simps round_half_even_def)

section \<open>Test vectors of HMAC-SHA1 and of the derivation\<close>

text \<open>
  The key is the secret of the test vectors of RFC 4226. Counter 0 gives the published code
  755224; the counters 103424 and 103427 give the same six-digit code.
\<close>

lemma add32_eval:
  "add32 x y = (if x + y < 4294967296 then x + y
                else if x + y < 8589934592 then x + y - 4294967296
                else (x + y) mod 4294967296)"
  by (simp add: add32_def mod_if)

lemma rotl32_eval:
  "rotl32 n w = (if n \<le> 32 \<and> w < 4294967296
                 then push_bit n (w - push_bit (32 - n) (drop_bit (32 - n) w))
                      + drop_bit (32 - n) w
                 else (w * 2 ^ n) mod 4294967296 + w div 2 ^ (32 - n))"
proof (cases "n \<le> 32 \<and> w < 4294967296")
  case False
  then show ?thesis
    unfolding rotl32_def by (simp only: if_False)
next
  case True
  have "w - push_bit (32 - n) (drop_bit (32 - n) w) = w mod 2 ^ (32 - n)"
    by (simp add: push_bit_eq_mult drop_bit_eq_div minus_div_mult_eq_mod [symmetric]
          mult.commute)
  moreover have "(w * 2 ^ n) mod 4294967296 = (w mod 2 ^ (32 - n)) * 2 ^ n"
  proof -
    have "(4294967296 :: nat) = 2 ^ (32 - n) * 2 ^ n"
      using True by (simp flip: power_add)
    then show ?thesis
      by (simp only: mult_mod_left)
  qed
  ultimately have "rotl32 n w = push_bit n (w - push_bit (32 - n) (drop_bit (32 - n) w))
                                + drop_bit (32 - n) w"
    by (simp add: rotl32_def push_bit_eq_mult drop_bit_eq_div)
  with True show ?thesis
    by simp
qed

lemmas sha1_eval = sha1_block_def word32_of_bytes_def rotl32_eval add32_eval not32_def
  sha1_schedule.simps sha1_f_def sha1_k_def

lemmas bytes_eval = utf8_def big_endian8_def upt_0_8 replicate_numeral bytes_of_word64_def
  bytes_of_word32_def sha1_output_def

lemma rfc_key_ipad:
  "map (\<lambda>b. b XOR 0x36)
     (map unat (utf8 ''12345678901234567890'') @ replicate (64 - length (utf8 ''12345678901234567890'')) 0)
   = [7, 4, 5, 2, 3, 0, 1, 14, 15, 6, 7, 4, 5, 2, 3, 0, 1, 14, 15, 6, 54, 54, 54, 54,
     54, 54, 54, 54, 54, 54, 54, 54, 54, 54, 54, 54, 54, 54, 54, 54, 54, 54, 54, 54, 54,
     54, 54, 54, 54, 54, 54, 54, 54, 54, 54, 54, 54, 54, 54, 54, 54, 54, 54, 54]"
  by (simp add: bytes_eval)

lemma rfc_key_opad:
  "map (\<lambda>b. b XOR 0x5c)
     (map unat (utf8 ''12345678901234567890'') @ replicate (64 - length (utf8 ''12345678901234567890'')) 0)
   = [109, 110, 111, 104, 105, 106, 107, 100, 101, 108, 109, 110, 111, 104, 105, 106,
     107, 100, 101, 108, 92, 92, 92, 92, 92, 92, 92, 92, 92, 92, 92, 92, 92, 92, 92, 92,
     92, 92, 92, 92, 92, 92, 92, 92, 92, 92, 92, 92, 92, 92, 92, 92, 92, 92, 92, 92, 92,
     92, 92, 92, 92, 92, 92, 92]"
  by (simp add: bytes_eval)

lemma rfc_key_inner:
  "sha1_block sha1_init
     [7, 4, 5, 2, 3, 0, 1, 14, 15, 6, 7, 4, 5, 2, 3, 0, 1, 14, 15, 6, 54, 54, 54, 54,
     54, 54, 54, 54, 54, 54, 54, 54, 54, 54, 54, 54, 54, 54, 54, 54, 54, 54, 54, 54, 54,
     54, 54, 54, 54, 54, 54, 54, 54, 54, 54, 54, 54, 54, 54, 54, 54, 54, 54, 54]
   = (3418885260, 4120502956, 3183003698, 3667247555, 4167577637)"
  by (simp add: sha1_eval sha1_init_def)

lemma rfc_key_outer:
  "sha1_block sha1_init
     [109, 110, 111, 104, 105, 106, 107, 100, 101, 108, 109, 110, 111, 104, 105, 106,
     107, 100, 101, 108, 92, 92, 92, 92, 92, 92, 92, 92, 92, 92, 92, 92, 92, 92, 92, 92,
     92, 92, 92, 92, 92, 92, 92, 92, 92, 92, 92, 92, 92, 92, 92, 92, 92, 92, 92, 92, 92,
     92, 92, 92, 92, 92, 92, 92]
   = (2562571725, 1491106814, 2908544490, 985678603, 4262488101)"
  by (simp add: sha1_eval sha1_init_def)


lemma rfc_inner_block_0:
  "map unat (big_endian8 0) @ 128 # replicate (55 - length (big_endian8 0)) 0
     @ bytes_of_word64 (8 * (64 + length (big_endian8 0)))
   = [0, 0, 0, 0, 0, 0, 0, 0, 128, 0, 0, 0, 0, 0, 0, 0, 0, 0, 0, 0, 0, 0, 0, 0, 0, 0, 0,
     0, 0, 0, 0, 0, 0, 0, 0, 0, 0, 0, 0, 0, 0, 0, 0, 0, 0, 0, 0, 0, 0, 0, 0, 0, 0, 0, 0,
     0, 0, 0, 0, 0, 0, 0, 2, 64]"
  by (simp add: bytes_eval)

lemma rfc_inner_0:
  "sha1_block (3418885260, 4120502956, 3183003698, 3667247555, 4167577637)
     [0, 0, 0, 0, 0, 0, 0, 0, 128, 0, 0, 0, 0, 0, 0, 0, 0, 0, 0, 0, 0, 0, 0, 0, 0, 0, 0,
     0, 0, 0, 0, 0, 0, 0, 0, 0, 0, 0, 0, 0, 0, 0, 0, 0, 0, 0, 0, 0, 0, 0, 0, 0, 0, 0, 0,
     0, 0, 0, 0, 0, 0, 0, 2, 64]
   = (143776190, 163256007, 3362926067, 1759011664, 1719552414)"
  by (simp add: sha1_eval)

lemma rfc_outer_block_0:
  "sha1_output (143776190, 163256007, 3362926067, 1759011664, 1719552414)
     @ 128 # replicate 35 0 @ bytes_of_word64 672
   = [8, 145, 217, 190, 9, 187, 22, 199, 200, 114, 45, 243, 104, 216, 99, 80, 102, 126,
     73, 158, 128, 0, 0, 0, 0, 0, 0, 0, 0, 0, 0, 0, 0, 0, 0, 0, 0, 0, 0, 0, 0, 0, 0, 0,
     0, 0, 0, 0, 0, 0, 0, 0, 0, 0, 0, 0, 0, 0, 0, 0, 0, 0, 2, 160]"
  by (simp add: bytes_eval)

lemma rfc_outer_0:
  "sha1_block (2562571725, 1491106814, 2908544490, 985678603, 4262488101)
     [8, 145, 217, 190, 9, 187, 22, 199, 200, 114, 45, 243, 104, 216, 99, 80, 102, 126,
     73, 158, 128, 0, 0, 0, 0, 0, 0, 0, 0, 0, 0, 0, 0, 0, 0, 0, 0, 0, 0, 0, 0, 0, 0, 0,
     0, 0, 0, 0, 0, 0, 0, 0, 0, 0, 0, 0, 0, 0, 0, 0, 0, 0, 2, 160]
   = (3432238872, 1351455891, 1281668701, 2343003775, 3083723952)"
  by (simp add: sha1_eval)

lemma rfc_digest_0:
  "map word_of_nat (sha1_output (3432238872, 1351455891, 1281668701, 2343003775, 3083723952))
   = ([204, 147, 207, 24, 80, 141, 148, 147, 76, 100, 182, 93, 139, 167, 102, 127, 183,
       205, 228, 176] :: byte list)"
  by (simp add: bytes_eval)

lemma rfc_hmac_0:
  "hmac_sha1 (utf8 ''12345678901234567890'') (big_endian8 0)
   = [204, 147, 207, 24, 80, 141, 148, 147, 76, 100, 182, 93, 139, 167, 102, 127, 183,
       205, 228, 176]"
proof -
  have "length (utf8 ''12345678901234567890'') \<le> 64" and "length (big_endian8 0) \<le> 55"
    by (simp_all add: utf8_def big_endian8_def)
  then show ?thesis
    by (simp only: hmac_sha1_two_blocks Let_def rfc_key_ipad rfc_key_opad rfc_key_inner
          rfc_key_outer rfc_inner_block_0 rfc_inner_0 rfc_outer_block_0
          rfc_outer_0 rfc_digest_0)
qed


lemma rfc_inner_block_103424:
  "map unat (big_endian8 103424) @ 128 # replicate (55 - length (big_endian8 103424)) 0
     @ bytes_of_word64 (8 * (64 + length (big_endian8 103424)))
   = [0, 0, 0, 0, 0, 1, 148, 0, 128, 0, 0, 0, 0, 0, 0, 0, 0, 0, 0, 0, 0, 0, 0, 0, 0, 0,
     0, 0, 0, 0, 0, 0, 0, 0, 0, 0, 0, 0, 0, 0, 0, 0, 0, 0, 0, 0, 0, 0, 0, 0, 0, 0, 0, 0,
     0, 0, 0, 0, 0, 0, 0, 0, 2, 64]"
  by (simp add: bytes_eval)

lemma rfc_inner_103424:
  "sha1_block (3418885260, 4120502956, 3183003698, 3667247555, 4167577637)
     [0, 0, 0, 0, 0, 1, 148, 0, 128, 0, 0, 0, 0, 0, 0, 0, 0, 0, 0, 0, 0, 0, 0, 0, 0, 0,
     0, 0, 0, 0, 0, 0, 0, 0, 0, 0, 0, 0, 0, 0, 0, 0, 0, 0, 0, 0, 0, 0, 0, 0, 0, 0, 0, 0,
     0, 0, 0, 0, 0, 0, 0, 0, 2, 64]
   = (4204785828, 4091279703, 2702701208, 2984637436, 1928859351)"
  by (simp add: sha1_eval)

lemma rfc_outer_block_103424:
  "sha1_output (4204785828, 4091279703, 2702701208, 2984637436, 1928859351)
     @ 128 # replicate 35 0 @ bytes_of_word64 672
   = [250, 159, 240, 164, 243, 219, 249, 87, 161, 23, 242, 152, 177, 229, 243, 252, 114,
     248, 14, 215, 128, 0, 0, 0, 0, 0, 0, 0, 0, 0, 0, 0, 0, 0, 0, 0, 0, 0, 0, 0, 0, 0,
     0, 0, 0, 0, 0, 0, 0, 0, 0, 0, 0, 0, 0, 0, 0, 0, 0, 0, 0, 0, 2, 160]"
  by (simp add: bytes_eval)

lemma rfc_outer_103424:
  "sha1_block (2562571725, 1491106814, 2908544490, 985678603, 4262488101)
     [250, 159, 240, 164, 243, 219, 249, 87, 161, 23, 242, 152, 177, 229, 243, 252, 114,
     248, 14, 215, 128, 0, 0, 0, 0, 0, 0, 0, 0, 0, 0, 0, 0, 0, 0, 0, 0, 0, 0, 0, 0, 0,
     0, 0, 0, 0, 0, 0, 0, 0, 0, 0, 0, 0, 0, 0, 0, 0, 0, 0, 0, 0, 2, 160]
   = (545964885, 2253714541, 3242714415, 2609645209, 3691331710)"
  by (simp add: sha1_eval)

lemma rfc_digest_103424:
  "map word_of_nat (sha1_output (545964885, 2253714541, 3242714415, 2609645209, 3691331710))
   = ([32, 138, 195, 85, 134, 84, 244, 109, 193, 71, 229, 47, 155, 140, 6, 153, 220, 5,
       64, 126] :: byte list)"
  by (simp add: bytes_eval)

lemma rfc_hmac_103424:
  "hmac_sha1 (utf8 ''12345678901234567890'') (big_endian8 103424)
   = [32, 138, 195, 85, 134, 84, 244, 109, 193, 71, 229, 47, 155, 140, 6, 153, 220, 5,
       64, 126]"
proof -
  have "length (utf8 ''12345678901234567890'') \<le> 64" and "length (big_endian8 103424) \<le> 55"
    by (simp_all add: utf8_def big_endian8_def)
  then show ?thesis
    by (simp only: hmac_sha1_two_blocks Let_def rfc_key_ipad rfc_key_opad rfc_key_inner
          rfc_key_outer rfc_inner_block_103424 rfc_inner_103424 rfc_outer_block_103424
          rfc_outer_103424 rfc_digest_103424)
qed


lemma rfc_inner_block_103427:
  "map unat (big_endian8 103427) @ 128 # replicate (55 - length (big_endian8 103427)) 0
     @ bytes_of_word64 (8 * (64 + length (big_endian8 103427)))
   = [0, 0, 0, 0, 0, 1, 148, 3, 128, 0, 0, 0, 0, 0, 0, 0, 0, 0, 0, 0, 0, 0, 0, 0, 0, 0,
     0, 0, 0, 0, 0, 0, 0, 0, 0, 0, 0, 0, 0, 0, 0, 0, 0, 0, 0, 0, 0, 0, 0, 0, 0, 0, 0, 0,
     0, 0, 0, 0, 0, 0, 0, 0, 2, 64]"
  by (simp add: bytes_eval)

lemma rfc_inner_103427:
  "sha1_block (3418885260, 4120502956, 3183003698, 3667247555, 4167577637)
     [0, 0, 0, 0, 0, 1, 148, 3, 128, 0, 0, 0, 0, 0, 0, 0, 0, 0, 0, 0, 0, 0, 0, 0, 0, 0,
     0, 0, 0, 0, 0, 0, 0, 0, 0, 0, 0, 0, 0, 0, 0, 0, 0, 0, 0, 0, 0, 0, 0, 0, 0, 0, 0, 0,
     0, 0, 0, 0, 0, 0, 0, 0, 2, 64]
   = (1542546204, 977075486, 2428467837, 3700604152, 2044535397)"
  by (simp add: sha1_eval)

lemma rfc_outer_block_103427:
  "sha1_output (1542546204, 977075486, 2428467837, 3700604152, 2044535397)
     @ 128 # replicate 35 0 @ bytes_of_word64 672
   = [91, 241, 99, 28, 58, 60, 253, 30, 144, 191, 122, 125, 220, 146, 188, 248, 121,
     221, 34, 101, 128, 0, 0, 0, 0, 0, 0, 0, 0, 0, 0, 0, 0, 0, 0, 0, 0, 0, 0, 0, 0, 0,
     0, 0, 0, 0, 0, 0, 0, 0, 0, 0, 0, 0, 0, 0, 0, 0, 0, 0, 0, 0, 2, 160]"
  by (simp add: bytes_eval)

lemma rfc_outer_103427:
  "sha1_block (2562571725, 1491106814, 2908544490, 985678603, 4262488101)
     [91, 241, 99, 28, 58, 60, 253, 30, 144, 191, 122, 125, 220, 146, 188, 248, 121,
     221, 34, 101, 128, 0, 0, 0, 0, 0, 0, 0, 0, 0, 0, 0, 0, 0, 0, 0, 0, 0, 0, 0, 0, 0,
     0, 0, 0, 0, 0, 0, 0, 0, 0, 0, 0, 0, 0, 0, 0, 0, 0, 0, 0, 0, 2, 160]
   = (1160226003, 1273324310, 3062018481, 476325318, 885387806)"
  by (simp add: sha1_eval)

lemma rfc_digest_103427:
  "map word_of_nat (sha1_output (1160226003, 1273324310, 3062018481, 476325318, 885387806))
   = ([69, 39, 164, 211, 75, 229, 99, 22, 182, 130, 177, 177, 28, 100, 37, 198, 52,
       197, 242, 30] :: byte list)"
  by (simp add: bytes_eval)

lemma rfc_hmac_103427:
  "hmac_sha1 (utf8 ''12345678901234567890'') (big_endian8 103427)
   = [69, 39, 164, 211, 75, 229, 99, 22, 182, 130, 177, 177, 28, 100, 37, 198, 52,
       197, 242, 30]"
proof -
  have "length (utf8 ''12345678901234567890'') \<le> 64" and "length (big_endian8 103427) \<le> 55"
    by (simp_all add: utf8_def big_endian8_def)
  then show ?thesis
    by (simp only: hmac_sha1_two_blocks Let_def rfc_key_ipad rfc_key_opad rfc_key_inner
          rfc_key_outer rfc_inner_block_103427 rfc_inner_103427 rfc_outer_block_103427
          rfc_outer_103427 rfc_digest_103427)
qed


lemma rfc_code_0:
  "generateCode ''12345678901234567890'' 0 (Some \<lparr>gc_length = Some 6\<rparr>) = Inr (Number 755224)"
  by (simp add: generateCode_rfc4226 max_string_length_def rfc4226_hotp_def rfc_hmac_0
        rfc4226_truncated_def)

lemma rfc_code_103424:
  "generateCode ''12345678901234567890'' 103424 (Some \<lparr>gc_length = Some 6\<rparr>)
   = Inr (Number 746629)"
  by (simp add: generateCode_rfc4226 max_string_length_def rfc4226_hotp_def rfc_hmac_103424
        rfc4226_truncated_def)

lemma rfc_code_103427:
  "generateCode ''12345678901234567890'' 103427 (Some \<lparr>gc_length = Some 6\<rparr>)
   = Inr (Number 746629)"
  by (simp add: generateCode_rfc4226 max_string_length_def rfc4226_hotp_def rfc_hmac_103427
        rfc4226_truncated_def)

section \<open>The seed loop and the clock\<close>




section \<open>Base32, percent-encoding and errors\<close>

lemma unat_ascii_unit: "unat (word_of_nat (of_char c) :: 16 word) = of_char c"
proof -
  have "(of_char c :: nat) < 256"
    by simp
  then have "(of_char c :: nat) < 2 ^ 16"
    by (rule less_trans) simp
  then show ?thesis
    by (simp add: unsigned_of_nat take_bit_nat_eq_self)
qed

lemma encodeURIComponent_unreserved:
  "(\<And>c. c \<in> set s \<Longrightarrow> uri_unreserved (of_char c)) \<Longrightarrow> encodeURIComponent (ascii s) = Inr s"
  by (induction s) (simp_all add: ascii_def unat_ascii_unit)

lemma b32_char_unreserved: "v < 32 \<Longrightarrow> uri_unreserved (of_char (b32_char v))"
proof -
  assume "v < 32"
  then have "v \<in> set [0..<32]" by simp
  moreover have "\<forall>v \<in> set [0..<32]. uri_unreserved (of_char (b32_char v))"
    by (simp add: upt_rec uri_unreserved_def b32_char_def)
  ultimately show ?thesis by blast
qed

lemma base32_encode_chars:
  "c \<in> set (base32_encode bs) \<Longrightarrow> c = CHR ''='' \<or> uri_unreserved (of_char c)"
proof (induction bs rule: base32_encode.induct)
  case 1
  then show ?case by simp
next
  case (2 b bs)
  define v where "v = foldl (\<lambda>acc x. acc * 256 + x) 0
                        (take 5 (b # bs) @ replicate (5 - length (take 5 (b # bs))) 0)"
  define cs where "cs = map (\<lambda>i. b32_char (v div 32 ^ (7 - i) mod 32)) [0..<8]"
  define n where "n = (8 * length (take 5 (b # bs)) + 4) div 5"
  have unfold: "base32_encode (b # bs)
                = take n cs @ replicate (8 - n) (CHR ''='') @ base32_encode (drop 4 bs)"
    by (simp add: Let_def v_def cs_def n_def)
  have cs: "uri_unreserved (of_char x)" if "x \<in> set cs" for x
    using that by (auto simp: cs_def b32_char_unreserved)
  from "2.prems" consider "c \<in> set (take n cs)" | "c \<in> set (replicate (8 - n) (CHR ''=''))"
    | "c \<in> set (base32_encode (drop 4 bs))"
    unfolding unfold by auto
  then show ?case
  proof cases
    case 1
    then have "c \<in> set cs" by (rule in_set_takeD)
    then show ?thesis by (simp add: cs)
  next
    case 2
    then show ?thesis by simp
  next
    case 3
    then show ?thesis
      by (rule "2.IH" [OF refl refl refl refl refl])
  qed
qed

lemma base32_stripped_unchanged:
  "encodeURIComponent (ascii (filter (\<lambda>c. c \<noteq> CHR ''='') (base32_encode bs)))
   = Inr (filter (\<lambda>c. c \<noteq> CHR ''='') (base32_encode bs))"
  by (rule encodeURIComponent_unreserved) (auto dest: base32_encode_chars)

text \<open>
  \<open>encodeURIComponent\<close> throws exactly on the strings that hold a surrogate without its
  partner.
\<close>

lemma unreserved_not_surrogate: "uri_unreserved (unat c) \<Longrightarrow> \<not> is_lead c \<and> \<not> is_trail c"
  by (auto simp: uri_unreserved_def is_lead_def is_trail_def)

lemma lead_not_trail: "is_lead c \<Longrightarrow> \<not> is_trail c"
  by (simp add: is_lead_def is_trail_def)

lemma encodeURIComponent_well_formed:
  "encodeURIComponent s = (if well_formed s then Inr (percent_encoded s) else Inl URIError)"
proof -
  have "(well_formed s \<longrightarrow> (\<exists>r. encodeURIComponent s = Inr r))
        \<and> (\<not> well_formed s \<longrightarrow> encodeURIComponent s = Inl URIError)"
  proof (induction s rule: well_formed.induct)
    case 1
    show ?case by simp
  next
    case (2 c)
    show ?case
      by (auto simp: lead_not_trail dest: unreserved_not_surrogate)
  next
    case (3 c d ds)
    show ?case
    proof (cases "is_lead c")
      case True
      then have "\<not> uri_unreserved (unat c)" "\<not> is_trail c"
        by (auto dest: unreserved_not_surrogate lead_not_trail)
      with True "3.IH"(1) show ?thesis
        by (cases "is_trail d") auto
    next
      case False
      with "3.IH"(2) show ?thesis
        by (cases "is_trail c") (auto dest: unreserved_not_surrogate)
    qed
  qed
  then show ?thesis
    by (auto simp: percent_encoded_def)
qed

lemma base32_abc: "base32_encode (map of_char ''abc'') = ''MFRGG===''"
  by (simp add: Let_def b32_char_def upt_0_8 replicate_numeral char_of_eq_iff)

lemma base32_foobar: "base32_encode (map of_char ''foobar'') = ''MZXW6YTBOI======''"
  by (simp add: Let_def b32_char_def upt_0_8 replicate_numeral char_of_eq_iff)






lemma generateURL_closed_form:
  "generateURL seed options =
     (if well_formed_opt (Option.bind options issuer)
         \<and> well_formed_opt (Option.bind options account)
      then Inr (''otpauth://totp/''
             @ (case Option.bind options issuer of
                  None \<Rightarrow> []
                | Some i \<Rightarrow> if i \<noteq> [] then ''?issuer='' @ percent_encoded i else [])
             @ (case Option.bind options account of
                  None \<Rightarrow> []
                | Some a \<Rightarrow> if a \<noteq> [] then percent_encoded a else [])
             @ ''&secret=''
             @ filter (\<lambda>c. c \<noteq> CHR ''='') (base32_encode (map of_char seed)))
      else Inl URIError)"
  unfolding generateURL_def Let_def base32_stripped_unchanged
  by (simp add: encodeURIComponent_well_formed well_formed_opt_def split: option.split)


lemma stripped_abc:
  "filter (\<lambda>c. c \<noteq> CHR ''='') (base32_encode (map of_char ''abc'')) = ''MFRGG''"
  by (simp only: base32_abc) simp

text \<open>Percent-encoding: an ASCII name, a letter of two octets, and a surrogate pair.\<close>

lemma percent_encoded_ascii:
  "(\<And>c. c \<in> set s \<Longrightarrow> uri_unreserved (of_char c)) \<Longrightarrow> percent_encoded (ascii s) = s"
  by (simp add: percent_encoded_def encodeURIComponent_unreserved)

lemma well_formed_plain:
  "(\<And>c. c \<in> set u \<Longrightarrow> \<not> is_lead c \<and> \<not> is_trail c) \<Longrightarrow> well_formed u"
  by (induction u rule: well_formed.induct) simp_all

lemma ascii_unit_plain:
  "\<not> is_lead (word_of_nat (of_char a)) \<and> \<not> is_trail (word_of_nat (of_char a))"
proof -
  have "(of_char a :: nat) < 256"
    by simp
  then show ?thesis
    unfolding is_lead_def is_trail_def unat_ascii_unit by linarith
qed

lemma well_formed_ascii: "well_formed (ascii s)"
  by (rule well_formed_plain) (auto simp: ascii_def ascii_unit_plain)

lemma encodeURIComponent_e_acute: "encodeURIComponent [0xE9] = Inr ''%C3%A9''"
  by (simp add: uri_unreserved_def is_lead_def is_trail_def percent_def utf8_octets_def
        hex_upper_def char_of_eq_iff)

lemma encodeURIComponent_pair: "encodeURIComponent [0xD83D, 0xDE00] = Inr ''%F0%9F%98%80''"
  by (simp add: uri_unreserved_def is_lead_def is_trail_def pair_code_point_def percent_def
        utf8_octets_def hex_upper_def char_of_eq_iff)

lemma encodeURIComponent_lone_surrogate: "encodeURIComponent [0xD800] = Inl URIError"
  by (simp add: uri_unreserved_def is_lead_def is_trail_def)

lemma generateURL_example:
  "generateURL ''abc'' (Some \<lparr>issuer = Some (ascii ''Issuer''), account = Some (ascii ''acct'')\<rparr>)
   = Inr ''otpauth://totp/?issuer=Issueracct&secret=MFRGG''"
proof -
  have "percent_encoded (ascii ''Issuer'') = ''Issuer''"
    by (rule percent_encoded_ascii) (auto simp: uri_unreserved_def)
  moreover have "percent_encoded (ascii ''acct'') = ''acct''"
    by (rule percent_encoded_ascii) (auto simp: uri_unreserved_def)
  moreover have "ascii ''Issuer'' \<noteq> []" "ascii ''acct'' \<noteq> []"
    by (simp_all add: ascii_def)
  ultimately show ?thesis
    unfolding generateURL_closed_form stripped_abc
    by (simp add: well_formed_opt_def well_formed_ascii)
qed

lemma generateURL_abc:
  "generateURL ''abc'' (Some \<lparr>issuer = None, account = None\<rparr>)
   = Inr ''otpauth://totp/&secret=MFRGG''"
  unfolding generateURL_closed_form stripped_abc by (simp add: well_formed_opt_def)

section \<open>The properties\<close>

text \<open>
  C1 (amended). For every seed, every length \<open>L\<close> from 1 to 536870888 (the longest string
  of the engine) and every integer counter of the signed 64-bit range, \<open>generateCode\<close>
  returns the RFC 4226 value: the counter as eight big-endian bytes, HMAC-SHA1 keyed by the
  seed, the offset from the low nibble of byte 19, the 31-bit truncated value, and that value
  modulo \<open>10 ^ L\<close>, which is also the numeric value of the last \<open>L\<close> characters of its
  decimal text. For any other integer counter, and for any longer length, the call throws a
  RangeError.
\<close>

theorem generateCode_is_rfc4226:
  assumes "1 \<le> L"
  shows "generateCode seed counter (Some \<lparr>gc_length = Some L\<rparr>)
           = (if - (2 ^ 63) \<le> counter \<and> counter < 2 ^ 63 \<and> L \<le> 536870888
              then Inr (Number (rfc4226_hotp seed counter (nat L)))
              else Inl RangeError)
       \<and> rfc4226_hotp_text seed counter (nat L) = rfc4226_hotp seed counter (nat L)"
proof (cases "- (2 ^ 63) \<le> counter \<and> counter < 2 ^ 63")
  case False
  then have "generateCode seed counter (Some \<lparr>gc_length = Some L\<rparr>) = Inl RangeError"
    by (rule generateCode_out_of_range)
  with False show ?thesis
    by (auto simp: rfc4226_text_eq_mod)
next
  case True
  show ?thesis
  proof (cases "L \<le> 536870888")
    case True
    with \<open>- (2 ^ 63) \<le> counter \<and> counter < 2 ^ 63\<close> assms show ?thesis
      by (simp add: generateCode_rfc4226 max_string_length_def rfc4226_text_eq_mod)
  next
    case False
    then have "max_string_length < L"
      by (simp add: max_string_length_def)
    with \<open>- (2 ^ 63) \<le> counter \<and> counter < 2 ^ 63\<close> False show ?thesis
      by (simp add: generateCode_too_long rfc4226_text_eq_mod)
  qed
qed

theorem generateCode_is_rfc4226_witness:
  "(1 :: int) \<le> 6
   \<and> generateCode ''12345678901234567890'' 0 (Some \<lparr>gc_length = Some 6\<rparr>)
       = Inr (Number (rfc4226_hotp ''12345678901234567890'' 0 6))
   \<and> rfc4226_hotp_text ''12345678901234567890'' 0 6 = rfc4226_hotp ''12345678901234567890'' 0 6"
  using generateCode_is_rfc4226 [of 6 "''12345678901234567890''" 0] by simp

theorem generateCode_counter_2_63_raises:
  "generateCode ''12345678901234567890'' 9223372036854775808 (Some \<lparr>gc_length = Some 6\<rparr>)
     = Inl RangeError
   \<and> generateCode ''12345678901234567890'' 9223372036854775808 (Some \<lparr>gc_length = Some 6\<rparr>)
     \<noteq> Inr (Number (rfc4226_hotp ''12345678901234567890'' 9223372036854775808 6))"
  by (simp add: generateCode_out_of_range)

text \<open>
  C2 (amended). For every seed, every length \<open>L\<close> from 0 to 536870888 and every counter
  \<open>c\<close> with \<open>0 \<le> c < 2 ^ 63\<close> that a number holds exactly (every integer up to
  \<open>2 ^ 53\<close> is one), \<open>generateCode\<close> returns a number and \<open>verifyHOTP\<close> accepts it
  at the same counter with the default drifts.
\<close>

theorem fresh_code_verifies:
  assumes "0 \<le> c" and "c < 2 ^ 63" and "double_of_int c = c"
    and "0 \<le> L" and "L \<le> 536870888"
  shows "\<exists>v. generateCode seed c (Some \<lparr>gc_length = Some L\<rparr>) = Inr (Number v)
             \<and> verifyHOTP seed (Number v) c
                  (Some \<lparr>vh_length = Some L, allowedBeforeDrift = None, allowedAfterDrift = None\<rparr>)
                = Some (Inr True)"
proof -
  have c: "- (2 ^ 63) \<le> c"
    using assms(1) by (rule order_trans [rotated]) simp
  have L: "L \<le> max_string_length"
    using assms(5) by (simp add: max_string_length_def)
  obtain v where v: "generateCode seed c (Some \<lparr>gc_length = Some L\<rparr>) = Inr (Number v)"
    using generateCode_Number [OF c assms(2,4) L] by blast
  have "hotp_loop seed (Number v) (Some L) c c = Some (Inr True)"
    using v by (intro hotp_loop_match [where v = "Number v"]) simp_all
  then show ?thesis
    using v assms(3) by (simp add: verifyHOTP_loop)
qed

theorem fresh_code_verifies_witness:
  "(0 :: int) \<le> 4611686018427387904 \<and> (4611686018427387904 :: int) < 2 ^ 63
   \<and> double_of_int 4611686018427387904 = 4611686018427387904
   \<and> (0 :: int) \<le> 6 \<and> (6 :: int) \<le> 536870888
   \<and> (\<exists>v. generateCode ''12345678901234567890'' 4611686018427387904
              (Some \<lparr>gc_length = Some 6\<rparr>)
            = Inr (Number v)
          \<and> verifyHOTP ''12345678901234567890'' (Number v) 4611686018427387904
               (Some \<lparr>vh_length = Some 6, allowedBeforeDrift = None, allowedAfterDrift = None\<rparr>)
             = Some (Inr True))"
  using fresh_code_verifies
          [where c = 4611686018427387904 and L = 6 and seed = "''12345678901234567890''"]
  by (simp add: double_of_int_2_62)

theorem negative_length_code_is_rejected:
  "generateCode ''12345678901234567890'' 0 (Some \<lparr>gc_length = Some (- 10)\<rparr>) = Inr NaN
   \<and> verifyHOTP ''12345678901234567890'' NaN 0
         (Some \<lparr>vh_length = Some (- 10), allowedBeforeDrift = None, allowedAfterDrift = None\<rparr>)
       = Some (Inr False)"
proof -
  have nan: "generateCode ''12345678901234567890'' 0 (Some \<lparr>gc_length = Some (- 10)\<rparr>) = Inr NaN"
    by (rule generateCode_NaN) simp_all
  have "hotp_loop ''12345678901234567890'' NaN (Some (- 10)) 0 0
        = hotp_loop ''12345678901234567890'' NaN (Some (- 10)) (double_of_int (0 + 1)) 0"
    using nan by (intro hotp_loop_next [where v = NaN]) simp_all
  also have "\<dots> = Some (Inr False)"
    by (rule hotp_loop_empty) (simp add: double_of_int_exact)
  finally show ?thesis
    using nan by (simp add: verifyHOTP_loop double_of_int_exact)
qed

text \<open>
  C3 (amended). For every seed, every length \<open>L\<close> from 0 to 536870888 and every counter
  \<open>c\<close> with \<open>- 2 ^ 53 \<le> c\<close> and \<open>c + 3 \<le> 2 ^ 53\<close>, with drifts 0 before and 2 after:
  the code of counter \<open>c + 2\<close> verifies at \<open>c\<close>, and the code of counter \<open>c + 3\<close>
  verifies at \<open>c\<close> exactly when it equals the code of \<open>c\<close>, of \<open>c + 1\<close> or of
  \<open>c + 2\<close>.
\<close>

theorem drift_window_of_two:
  assumes "- (2 ^ 53) \<le> c" and "c + 3 \<le> 2 ^ 53" and "0 \<le> L" and "L \<le> 536870888"
  shows "\<exists>v2 v3.
           generateCode seed (c + 2) (Some \<lparr>gc_length = Some L\<rparr>) = Inr (Number v2)
         \<and> generateCode seed (c + 3) (Some \<lparr>gc_length = Some L\<rparr>) = Inr (Number v3)
         \<and> verifyHOTP seed (Number v2) c
              (Some \<lparr>vh_length = Some L, allowedBeforeDrift = Some 0, allowedAfterDrift = Some 2\<rparr>)
            = Some (Inr True)
         \<and> verifyHOTP seed (Number v3) c
              (Some \<lparr>vh_length = Some L, allowedBeforeDrift = Some 0, allowedAfterDrift = Some 2\<rparr>)
            = Some (Inr (generateCode seed c (Some \<lparr>gc_length = Some L\<rparr>) = Inr (Number v3)
                   \<or> generateCode seed (c + 1) (Some \<lparr>gc_length = Some L\<rparr>) = Inr (Number v3)
                   \<or> generateCode seed (c + 2) (Some \<lparr>gc_length = Some L\<rparr>) = Inr (Number v3)))"
proof -
  let ?g = "\<lambda>i. generateCode seed i (Some \<lparr>gc_length = Some L\<rparr>)"
  have L: "L \<le> max_string_length"
    using assms(4) by (simp add: max_string_length_def)
  have range: "- (2 ^ 63) \<le> c + k \<and> c + k < 2 ^ 63" if "0 \<le> k" "k \<le> 3" for k
    using assms(1,2) that by simp
  obtain v0 where v0: "?g c = Inr (Number v0)"
    using generateCode_Number [of c L seed] range [of 0] assms(3) L by auto
  obtain v1 where v1: "?g (c + 1) = Inr (Number v1)"
    using generateCode_Number [of "c + 1" L seed] range [of 1] assms(3) L by auto
  obtain v2 where v2: "?g (c + 2) = Inr (Number v2)"
    using generateCode_Number [of "c + 2" L seed] range [of 2] assms(3) L by auto
  obtain v3 where v3: "?g (c + 3) = Inr (Number v3)"
    using generateCode_Number [of "c + 3" L seed] range [of 3] assms(3) L by auto
  have win: "window_match seed (Number w) (Some L) c (c + 2) = (v0 = w \<or> v1 = w \<or> v2 = w)" for w
  proof -
    have "{c..c + 2} = {c, c + 1, c + 2}" by auto
    then have "(\<exists>i. c \<le> i \<and> i \<le> c + 2 \<and> P i) = (P c \<or> P (c + 1) \<or> P (c + 2))" for P
      by (metis atLeastAtMost_iff insert_iff empty_iff)
    then show ?thesis
      unfolding window_match_iff by (simp add: v0 v1 v2)
  qed
  have verify: "verifyHOTP seed (Number w) c
                  (Some \<lparr>vh_length = Some L, allowedBeforeDrift = Some 0,
                          allowedAfterDrift = Some 2\<rparr>)
                = Some (Inr (window_match seed (Number w) (Some L) c (c + 2)))" for w
    using verifyHOTP_window [of 0 2 c seed "Number w" "Some L"] assms(1,2) L
    by (simp add: length_ok_def)
  show ?thesis
    by (intro exI [where x = v2] exI [where x = v3])
       (simp add: v0 v1 v2 v3 verify win)
qed

theorem drift_window_of_two_witness:
  "- (2 ^ 53) \<le> (0 :: int) \<and> (0 :: int) + 3 \<le> 2 ^ 53 \<and> (0 :: int) \<le> 6
   \<and> (6 :: int) \<le> 536870888
   \<and> (\<exists>v2 v3.
           generateCode ''12345678901234567890'' 2 (Some \<lparr>gc_length = Some 6\<rparr>) = Inr (Number v2)
         \<and> generateCode ''12345678901234567890'' 3 (Some \<lparr>gc_length = Some 6\<rparr>) = Inr (Number v3)
         \<and> verifyHOTP ''12345678901234567890'' (Number v2) 0
              (Some \<lparr>vh_length = Some 6, allowedBeforeDrift = Some 0, allowedAfterDrift = Some 2\<rparr>)
            = Some (Inr True)
         \<and> verifyHOTP ''12345678901234567890'' (Number v3) 0
              (Some \<lparr>vh_length = Some 6, allowedBeforeDrift = Some 0, allowedAfterDrift = Some 2\<rparr>)
            = Some (Inr (generateCode ''12345678901234567890'' 0 (Some \<lparr>gc_length = Some 6\<rparr>)
                     = Inr (Number v3)
                   \<or> generateCode ''12345678901234567890'' 1 (Some \<lparr>gc_length = Some 6\<rparr>)
                     = Inr (Number v3)
                   \<or> generateCode ''12345678901234567890'' 2 (Some \<lparr>gc_length = Some 6\<rparr>)
                     = Inr (Number v3))))"
  using drift_window_of_two [of 0 6 "''12345678901234567890''"] by simp

theorem code_past_the_window_verifies:
  "generateCode ''12345678901234567890'' (103424 + 3) (Some \<lparr>gc_length = Some 6\<rparr>)
     = Inr (Number 746629)
   \<and> verifyHOTP ''12345678901234567890'' (Number 746629) 103424
         (Some \<lparr>vh_length = Some 6, allowedBeforeDrift = Some 0, allowedAfterDrift = Some 2\<rparr>)
       = Some (Inr True)"
proof -
  have "hotp_loop ''12345678901234567890'' (Number 746629) (Some 6) 103424 103426
        = Some (Inr True)"
    using rfc_code_103424 by (intro hotp_loop_match [where v = "Number 746629"]) simp_all
  then show ?thesis
    using rfc_code_103427 by (simp add: verifyHOTP_loop double_of_int_exact)
qed

text \<open>
  C4 (amended). For every seed, code, counter, length and non-negative drifts such that
  \<open>counter - before\<close> is at least \<open>- 2 ^ 53\<close> and \<open>counter + after\<close> is below
  \<open>2 ^ 53\<close>: the window is not empty; \<open>verifyHOTP\<close> returns true exactly when some
  counter of the window from \<open>counter - before\<close> to \<open>counter + after\<close> has a code that is
  \<open>===\<close> the given one; it returns false in every other case when the length is at most
  536870888, and throws a RangeError when the length is greater.
\<close>

theorem verifyHOTP_scans_window:
  assumes "0 \<le> before" and "0 \<le> after"
    and "- (2 ^ 53) \<le> counter - before" and "counter + after < 2 ^ 53"
  shows "counter - before \<le> counter + after
       \<and> (verifyHOTP seed code counter
             (Some \<lparr>vh_length = len, allowedBeforeDrift = Some before,
                     allowedAfterDrift = Some after\<rparr>) = Some (Inr True))
         = window_match seed code len (counter - before) (counter + after)
       \<and> verifyHOTP seed code counter
             (Some \<lparr>vh_length = len, allowedBeforeDrift = Some before,
                     allowedAfterDrift = Some after\<rparr>)
         = Some (if length_ok len
                 then Inr (window_match seed code len (counter - before) (counter + after))
                 else Inl RangeError)"
proof -
  have "verifyHOTP seed code counter
          (Some \<lparr>vh_length = len, allowedBeforeDrift = Some before,
                  allowedAfterDrift = Some after\<rparr>)
        = Some (if length_ok len
                then Inr (window_match seed code len (counter - before) (counter + after))
                else Inl RangeError)"
    using assms by (intro verifyHOTP_window) simp_all
  then show ?thesis
    using assms(1,2) by (auto simp: window_match_not_length_ok)
qed

theorem verifyHOTP_scans_window_witness:
  "(0 :: int) \<le> 1 \<and> (0 :: int) \<le> 2 \<and> - (2 ^ 53) \<le> (5 :: int) - 1 \<and> (5 :: int) + 2 < 2 ^ 53
   \<and> (verifyHOTP ''12345678901234567890'' (Number 755224) 5
          (Some \<lparr>vh_length = Some 6, allowedBeforeDrift = Some 1, allowedAfterDrift = Some 2\<rparr>)
        = Some (Inr True))
       = window_match ''12345678901234567890'' (Number 755224) (Some 6) 4 7
   \<and> length_ok (Some 6)
   \<and> verifyHOTP ''12345678901234567890'' (Number 755224) 5
          (Some \<lparr>vh_length = Some 6, allowedBeforeDrift = Some 1, allowedAfterDrift = Some 2\<rparr>)
       = Some (Inr (window_match ''12345678901234567890'' (Number 755224) (Some 6) 4 7))"
  using verifyHOTP_scans_window [of 1 2 5 "''12345678901234567890''" "Number 755224" "Some 6"]
  by (simp add: length_ok_def max_string_length_def)

theorem verifyHOTP_raises_below_the_range:
  "verifyHOTP ''12345678901234567890'' (Number 755224) 0
     (Some \<lparr>vh_length = Some 6, allowedBeforeDrift = Some 18446744073709551616,
             allowedAfterDrift = Some 0\<rparr>)
     = Some (Inl RangeError)
   \<and> (0 :: int) - 18446744073709551616 \<le> 0 \<and> (0 :: int) \<le> 0 + 0
   \<and> generateCode ''12345678901234567890'' 0 (Some \<lparr>gc_length = Some 6\<rparr>)
       = Inr (Number 755224)
   \<and> strict_eq (Number 755224) (Number 755224)"
proof -
  have "generateCode ''12345678901234567890'' (- 18446744073709551616)
          (Some \<lparr>gc_length = Some 6\<rparr>) = Inl RangeError"
    by (rule generateCode_out_of_range) simp
  then have "hotp_loop ''12345678901234567890'' (Number 755224) (Some 6)
               (- 18446744073709551616) 0 = Some (Inl RangeError)"
    by (intro hotp_loop_raise) simp_all
  then show ?thesis
    using rfc_code_0 by (simp add: verifyHOTP_loop double_of_int_minus_2_64 double_of_int_exact)
qed

text \<open>
  C5. For every seed, code, length and step \<open>s \<ge> 1\<close>, with the clock reading \<open>now\<close> in
  milliseconds: \<open>verifyTOTP\<close> returns what \<open>verifyHOTP\<close> returns at the counter
  \<open>floor (seconds / s)\<close>, where \<open>seconds\<close> is \<open>now / 1000\<close>, with the length passed on and
  both drifts absent, that is 0.
\<close>

theorem verifyTOTP_is_verifyHOTP_at_time_counter:
  assumes "1 \<le> s"
  shows "verifyTOTP now seed code (Some \<lparr>vt_length = len, vt_step = Some s\<rparr>)
         = verifyHOTP seed code (now div 1000 div s)
             (Some \<lparr>vh_length = len, allowedBeforeDrift = None, allowedAfterDrift = None\<rparr>)
       \<and> verifyHOTP seed code (now div 1000 div s)
             (Some \<lparr>vh_length = len, allowedBeforeDrift = None, allowedAfterDrift = None\<rparr>)
         = verifyHOTP seed code (now div 1000 div s)
             (Some \<lparr>vh_length = len, allowedBeforeDrift = Some 0, allowedAfterDrift = Some 0\<rparr>)
       \<and> now div 1000 div s = \<lfloor>(of_int now :: rat) / 1000 / of_int s\<rfloor>"
proof -
  have "(of_int now :: rat) / 1000 / of_int s = of_int now / of_int (1000 * s)"
    by simp
  then have "\<lfloor>(of_int now :: rat) / 1000 / of_int s\<rfloor> = now div (1000 * s)"
    by (simp only: floor_divide_of_int_eq)
  also have "\<dots> = now div 1000 div s"
    using assms by (simp add: zdiv_zmult2_eq)
  finally have fl: "\<lfloor>(of_int now :: rat) / 1000 / of_int s\<rfloor> = now div 1000 div s" .
  have vt: "verifyTOTP now seed code (Some \<lparr>vt_length = len, vt_step = Some s\<rparr>)
            = verifyHOTP seed code \<lfloor>(of_int now :: rat) / 1000 / of_int s\<rfloor>
                (Some \<lparr>vh_length = len, allowedBeforeDrift = None, allowedAfterDrift = None\<rparr>)"
    using assms by (simp add: verifyTOTP_def Let_def)
  show ?thesis
    unfolding vt fl by (simp add: verifyHOTP_def Let_def)
qed

theorem verifyTOTP_is_verifyHOTP_at_time_counter_witness:
  "(1 :: int) \<le> 30
   \<and> verifyTOTP 1700000000000 ''12345678901234567890'' (Number 755224)
         (Some \<lparr>vt_length = Some 6, vt_step = Some 30\<rparr>)
       = verifyHOTP ''12345678901234567890'' (Number 755224) 56666666
           (Some \<lparr>vh_length = Some 6, allowedBeforeDrift = None, allowedAfterDrift = None\<rparr>)"
  using verifyTOTP_is_verifyHOTP_at_time_counter
          [of 30 1700000000000 "''12345678901234567890''" "Number 755224" "Some 6"]
  by simp



text \<open>
  C9. In \<open>generateCode\<close>, for every seed and counter: either the counter cannot be written
  as a signed 64-bit integer and the call throws before any read of the digest, or the
  digest has 20 bytes, the offset is at most 15, and the reads at index 19 and at the
  offset and the three indices after it are all inside the digest.
\<close>

theorem digest_reads_in_bounds:
  "(case writeBigInt64BE counter of
      Inl e \<Rightarrow> generateCode seed counter options = Inl e
    | Inr counterBuf \<Rightarrow>
        (let tokenBuf = from_hex (to_hex (hmac_sha1 (utf8 seed) counterBuf));
             offset = hotp_offset tokenBuf
         in length tokenBuf = 20
          \<and> buf_at tokenBuf 19 = Some (tokenBuf ! 19)
          \<and> offset \<le> 15
          \<and> offset + 3 \<le> 18
          \<and> buf_at tokenBuf offset = Some (tokenBuf ! offset)
          \<and> buf_at tokenBuf (offset + 1) = Some (tokenBuf ! (offset + 1))
          \<and> buf_at tokenBuf (offset + 2) = Some (tokenBuf ! (offset + 2))
          \<and> buf_at tokenBuf (offset + 3) = Some (tokenBuf ! (offset + 3))))"
proof (cases "writeBigInt64BE counter")
  case (Inl e)
  then show ?thesis
    by (simp add: generateCode_def Let_def)
next
  case (Inr counterBuf)
  let ?d = "hmac_sha1 (utf8 seed) counterBuf"
  have "length ?d = 20"
    by (rule length_hmac_sha1)
  moreover have "hotp_offset ?d \<le> 15"
    by (rule hotp_offset_le)
  ultimately show ?thesis
    using Inr by (simp add: from_hex_to_hex buf_at_def Let_def)
qed




text \<open>
  C8 (amended). For every seed and options whose issuer and account, when present, are well
  formed (no surrogate without its partner), \<open>generateURL\<close> returns \<open>otpauth://totp/\<close>, then
  \<open>?issuer=\<close> and the percent-encoded issuer only if an issuer is present (and not empty),
  then the percent-encoded account only if an account is present, with no separator, then
  \<open>&secret=\<close> and the percent-encoded Base32 text of the seed without its padding
  characters; percent-encoding leaves that text as it is. When the issuer or the account
  holds a lone surrogate, \<open>generateURL\<close> throws a URIError.
\<close>

theorem generateURL_shape:
  "generateURL seed options =
     (if well_formed_opt (Option.bind options issuer)
         \<and> well_formed_opt (Option.bind options account)
      then Inr (''otpauth://totp/''
             @ (case Option.bind options issuer of
                  None \<Rightarrow> []
                | Some i \<Rightarrow> if i \<noteq> [] then ''?issuer='' @ percent_encoded i else [])
             @ (case Option.bind options account of
                  None \<Rightarrow> []
                | Some a \<Rightarrow> if a \<noteq> [] then percent_encoded a else [])
             @ ''&secret=''
             @ filter (\<lambda>c. c \<noteq> CHR ''='') (base32_encode (map of_char seed)))
      else Inl URIError)
   \<and> (\<forall>url. generateURL seed options = Inr url \<longrightarrow>
          prefix ''otpauth://totp/'' url
        \<and> suffix (''&secret='' @ filter (\<lambda>c. c \<noteq> CHR ''='') (base32_encode (map of_char seed)))
            url)
   \<and> (\<forall>i. Option.bind options issuer = Some i \<and> well_formed i \<longrightarrow>
          encodeURIComponent i = Inr (percent_encoded i))
   \<and> (\<forall>a. Option.bind options account = Some a \<and> well_formed a \<longrightarrow>
          encodeURIComponent a = Inr (percent_encoded a))
   \<and> encodeURIComponent
       (ascii (filter (\<lambda>c. c \<noteq> CHR ''='') (base32_encode (map of_char seed))))
     = Inr (filter (\<lambda>c. c \<noteq> CHR ''='') (base32_encode (map of_char seed)))
   \<and> CHR ''='' \<notin> set (filter (\<lambda>c. c \<noteq> CHR ''='') (base32_encode (map of_char seed)))"
proof -
  let ?secret = "filter (\<lambda>c. c \<noteq> CHR ''='') (base32_encode (map of_char seed))"
  let ?i = "case Option.bind options issuer of
              None \<Rightarrow> [] | Some i \<Rightarrow> if i \<noteq> [] then ''?issuer='' @ percent_encoded i else []"
  let ?a = "case Option.bind options account of
              None \<Rightarrow> [] | Some a \<Rightarrow> if a \<noteq> [] then percent_encoded a else []"
  have form: "generateURL seed options =
                (if well_formed_opt (Option.bind options issuer)
                    \<and> well_formed_opt (Option.bind options account)
                 then Inr (''otpauth://totp/'' @ ?i @ ?a @ ''&secret='' @ ?secret)
                 else Inl URIError)"
    by (rule generateURL_closed_form)
  have "prefix ''otpauth://totp/'' (''otpauth://totp/'' @ ?i @ ?a @ ''&secret='' @ ?secret)"
    by (rule prefixI) simp
  moreover have "suffix (''&secret='' @ ?secret)
                   ((''otpauth://totp/'' @ ?i @ ?a) @ ''&secret='' @ ?secret)"
    by (rule suffixI) simp
  ultimately have ends: "\<forall>url. generateURL seed options = Inr url \<longrightarrow>
          prefix ''otpauth://totp/'' url \<and> suffix (''&secret='' @ ?secret) url"
    unfolding form by (simp split: if_splits)
  have enc: "well_formed x \<longrightarrow> encodeURIComponent x = Inr (percent_encoded x)" for x
    by (simp add: encodeURIComponent_well_formed)
  have 1: "\<forall>i. Option.bind options issuer = Some i \<and> well_formed i \<longrightarrow>
             encodeURIComponent i = Inr (percent_encoded i)"
    using enc by blast
  have 2: "\<forall>a. Option.bind options account = Some a \<and> well_formed a \<longrightarrow>
             encodeURIComponent a = Inr (percent_encoded a)"
    using enc by blast
  have 3: "encodeURIComponent (ascii ?secret) = Inr ?secret"
    by (rule base32_stripped_unchanged)
  have 4: "CHR ''='' \<notin> set ?secret"
    by simp
  from form ends 1 2 3 4 show ?thesis
    by (intro conjI)
qed

theorem generateURL_shape_witness:
  "generateURL ''abc'' (Some \<lparr>issuer = Some (ascii ''Issuer''), account = Some (ascii ''acct'')\<rparr>)
     = Inr ''otpauth://totp/?issuer=Issueracct&secret=MFRGG''
   \<and> prefix ''otpauth://totp/'' ''otpauth://totp/?issuer=Issueracct&secret=MFRGG''
   \<and> suffix ''&secret=MFRGG'' ''otpauth://totp/?issuer=Issueracct&secret=MFRGG''
   \<and> well_formed (ascii ''Issuer'') \<and> well_formed (ascii ''acct'')
   \<and> encodeURIComponent (ascii ''Issuer'') = Inr ''Issuer''
   \<and> encodeURIComponent (ascii ''acct'') = Inr ''acct''"
proof -
  note shape = generateURL_shape
                 [of "''abc''"
                     "Some \<lparr>issuer = Some (ascii ''Issuer''), account = Some (ascii ''acct'')\<rparr>",
                  unfolded stripped_abc]
  have i: "percent_encoded (ascii ''Issuer'') = ''Issuer''"
    by (rule percent_encoded_ascii) (auto simp: uri_unreserved_def)
  have a: "percent_encoded (ascii ''acct'') = ''acct''"
    by (rule percent_encoded_ascii) (auto simp: uri_unreserved_def)
  have ne: "ascii ''Issuer'' \<noteq> []" "ascii ''acct'' \<noteq> []"
    by (simp_all add: ascii_def)
  have wf: "well_formed (ascii ''Issuer'')" "well_formed (ascii ''acct'')"
    by (rule well_formed_ascii)+
  have url: "generateURL ''abc''
               (Some \<lparr>issuer = Some (ascii ''Issuer''), account = Some (ascii ''acct'')\<rparr>)
             = Inr ''otpauth://totp/?issuer=Issueracct&secret=MFRGG''"
    using shape by (simp add: stripped_abc well_formed_opt_def wf i a ne)
  have ends: "prefix ''otpauth://totp/'' ''otpauth://totp/?issuer=Issueracct&secret=MFRGG''
              \<and> suffix ''&secret=MFRGG'' ''otpauth://totp/?issuer=Issueracct&secret=MFRGG''"
    using shape unfolding url by simp
  have enc: "encodeURIComponent (ascii ''Issuer'') = Inr ''Issuer''
             \<and> encodeURIComponent (ascii ''acct'') = Inr ''acct''"
    using shape wf by (simp add: i a)
  from url ends wf enc show ?thesis
    by (intro conjI) simp_all
qed

theorem generateURL_lone_surrogate_raises:
  "generateURL ''abc'' (Some \<lparr>issuer = Some [0xD800], account = None\<rparr>) = Inl URIError"
  by (simp add: generateURL_closed_form well_formed_opt_def is_lead_def)

text \<open>
  C10 (amended). When \<open>generateQRCode\<close> is given a non-empty url, it does not fail and
  renders that url, whatever the seed, the issuer and the account of the options are.
\<close>

theorem generateQRCode_url_first:
  assumes "u \<noteq> []"
  shows "generateQRCode toDataURL
           \<lparr>qr_seed = s, qr_issuer = i, qr_account = a, qr_url = Some u\<rparr>
         = Inr (toDataURL u)"
  using assms by (simp add: generateQRCode_def)

theorem generateQRCode_url_first_witness:
  "''otpauth://totp/x'' \<noteq> []
   \<and> generateQRCode (\<lambda>url. url)
       \<lparr>qr_seed = Some ''abc'', qr_issuer = Some (ascii ''Issuer''),
        qr_account = Some (ascii ''acct''), qr_url = Some ''otpauth://totp/x''\<rparr>
     = Inr ''otpauth://totp/x''"
  using generateQRCode_url_first
          [of "''otpauth://totp/x''" "\<lambda>url. url" "Some ''abc''" "Some (ascii ''Issuer'')"
             "Some (ascii ''acct'')"]
  by simp

theorem generateQRCode_empty_url_renders_seed:
  "generateQRCode (\<lambda>url. url)
     \<lparr>qr_seed = Some ''abc'', qr_issuer = None, qr_account = None, qr_url = Some ''''\<rparr>
     = Inr ''otpauth://totp/&secret=MFRGG''
   \<and> generateQRCode (\<lambda>url. url)
       \<lparr>qr_seed = Some ''abc'', qr_issuer = None, qr_account = None, qr_url = Some ''''\<rparr>
     \<noteq> Inr ''''"
  by (simp add: generateQRCode_def render_seed_def generateURL_abc)

end
